theory Spec2Isabelle
  imports Main "HOL-Library.Monad_Syntax"
begin

unbundle bit_operations_syntax

section \<open>Go strings and \<^verbatim>\<open>strings.ToUpper\<close>\<close>

text \<open>
  The repository's only per-element computation is
  \<^verbatim>\<open>func process(word string) string { return strings.ToUpper(word) }\<close>.
  A Go string is an immutable sequence of bytes, modelled as \<open>string\<close> (a list of
  8-bit characters); a rune is an \<open>int32\<close>, modelled as \<open>int\<close> (no arithmetic
  below ever leaves the 32-bit range). \<open>strings.ToUpper\<close> belongs to the Go standard
  library, not to the repository: it is transcribed here from the library (packages
  \<open>strings\<close>, \<open>unicode/utf8\<close>, and the range statement's decoder in \<open>runtime\<close>).
  The one part that is data rather than code, the Unicode case table behind
  \<open>unicode.To(unicode.UpperCase, r)\<close>, is a parameter \<open>tbl\<close> of every function that
  needs it; \<open>unicode.ToUpper\<close> consults it only for runes above \<open>MaxASCII\<close>. The
  table of Unicode 15.0.0 and the search of it are \<open>To_UpperCase\<close> below.
  A run-time panic (a slice expression out of range) is the value \<open>None\<close>.
\<close>

type_synonym rune = int
type_synonym caseTable = "rune \<Rightarrow> rune"

abbreviation bval :: "char \<Rightarrow> int" where
  "bval c \<equiv> of_char c"

abbreviation RuneError :: rune where "RuneError \<equiv> 0xFFFD"
abbreviation RuneSelf :: int where "RuneSelf \<equiv> 0x80"
abbreviation MaxRune :: rune where "MaxRune \<equiv> 0x10FFFF"
abbreviation MaxASCII :: rune where "MaxASCII \<equiv> 0x7F"
abbreviation surrogateMin :: rune where "surrogateMin \<equiv> 0xD800"
abbreviation surrogateMax :: rune where "surrogateMax \<equiv> 0xDFFF"
abbreviation rune1Max :: rune where "rune1Max \<equiv> 0x7F"
abbreviation rune2Max :: rune where "rune2Max \<equiv> 0x7FF"
abbreviation rune3Max :: rune where "rune3Max \<equiv> 0xFFFF"

text \<open>
  A continuation byte: \<^verbatim>\<open>locb <= b && b <= hicb\<close> with \<open>locb = 0x80\<close>, \<open>hicb = 0xBF\<close>.
\<close>

definition contb :: "char \<Rightarrow> bool" where
  "contb b = (0x80 \<le> bval b \<and> bval b \<le> 0xBF)"

text \<open>
  \<^verbatim>\<open>runtime.decoderune\<close>, which the range statement calls on a byte \<open>>= RuneSelf\<close>:
  \<^verbatim>\<open>
  switch {
  case t2 <= s[0] && s[0] < t3:
      if len(s) > 1 && (locb <= s[1] && s[1] <= hicb) {
          r = rune(s[0]&mask2)<<6 | rune(s[1]&maskx)
          pos += 2
          if rune1Max < r { return }
      }
  case t3 <= s[0] && s[0] < t4:
      if len(s) > 2 && (locb <= s[1] && s[1] <= hicb) && (locb <= s[2] && s[2] <= hicb) {
          r = rune(s[0]&mask3)<<12 | rune(s[1]&maskx)<<6 | rune(s[2]&maskx)
          pos += 3
          if rune2Max < r && !(surrogateMin <= r && r <= surrogateMax) { return }
      }
  case t4 <= s[0] && s[0] < t5:
      if len(s) > 3 && ... {
          r = rune(s[0]&mask4)<<18 | rune(s[1]&maskx)<<12 | rune(s[2]&maskx)<<6 | rune(s[3]&maskx)
          pos += 4
          if rune3Max < r && r <= maxRune { return }
      }
  }
  return runeError, k + 1
  \<close>
  with \<open>t2 = 0xC0\<close>, \<open>t3 = 0xE0\<close>, \<open>t4 = 0xF0\<close>, \<open>t5 = 0xF8\<close>, \<open>mask2 = 0x1F\<close>,
  \<open>mask3 = 0x0F\<close>, \<open>mask4 = 0x07\<close>, \<open>maskx = 0x3F\<close>. The result is the rune and the
  number of bytes it took.
\<close>

definition decoderune :: "string \<Rightarrow> rune \<times> nat" where
  "decoderune s =
    (case s of
       [] \<Rightarrow> (RuneError, 1)
     | c0 # _ \<Rightarrow>
        (let s0 = bval c0 in
         if 0xC0 \<le> s0 \<and> s0 < 0xE0 then
           (if length s > 1 \<and> contb (s ! 1) then
              (let r = push_bit 6 (s0 AND 0x1F) OR (bval (s ! 1) AND 0x3F) in
               if rune1Max < r then (r, 2) else (RuneError, 1))
            else (RuneError, 1))
         else if 0xE0 \<le> s0 \<and> s0 < 0xF0 then
           (if length s > 2 \<and> contb (s ! 1) \<and> contb (s ! 2) then
              (let r = push_bit 12 (s0 AND 0x0F) OR push_bit 6 (bval (s ! 1) AND 0x3F)
                         OR (bval (s ! 2) AND 0x3F) in
               if rune2Max < r \<and> \<not> (surrogateMin \<le> r \<and> r \<le> surrogateMax)
               then (r, 3) else (RuneError, 1))
            else (RuneError, 1))
         else if 0xF0 \<le> s0 \<and> s0 < 0xF8 then
           (if length s > 3 \<and> contb (s ! 1) \<and> contb (s ! 2) \<and> contb (s ! 3) then
              (let r = push_bit 18 (s0 AND 0x07) OR push_bit 12 (bval (s ! 1) AND 0x3F)
                         OR push_bit 6 (bval (s ! 2) AND 0x3F) OR (bval (s ! 3) AND 0x3F) in
               if rune3Max < r \<and> r \<le> MaxRune then (r, 4) else (RuneError, 1))
            else (RuneError, 1))
         else (RuneError, 1)))"

text \<open>
  One step of \<^verbatim>\<open>for i, c := range s\<close> at a position inside the string: a byte below
  \<open>RuneSelf\<close> is its own rune, anything else goes through \<open>decoderune\<close>.
  \<open>utf8.DecodeRuneInString\<close> returns the same rune and width on a non-empty string
  (the language defines the range statement by it) and \<open>(RuneError, 0)\<close> on the
  empty one.
\<close>

definition nextRune :: "string \<Rightarrow> rune \<times> nat" where
  "nextRune s =
    (case s of
       [] \<Rightarrow> (RuneError, 1)
     | c0 # _ \<Rightarrow> if bval c0 < RuneSelf then (bval c0, 1) else decoderune s)"

definition DecodeRuneInString :: "string \<Rightarrow> rune \<times> nat" where
  "DecodeRuneInString s = (if s = [] then (RuneError, 0) else nextRune s)"

text \<open>
  \<^verbatim>\<open>utf8.AppendRune\<close> (what \<open>Builder.WriteRune\<close> appends): the comparisons are on
  \<open>uint32(r)\<close>, so a negative rune is above \<open>MaxRune\<close> and encodes as \<open>RuneError\<close>,
  as a surrogate does.
  \<^verbatim>\<open>
  case i <= rune1Max: append(p, byte(r))
  case i <= rune2Max: append(p, t2|byte(r>>6), tx|byte(r)&maskx)
  case i > MaxRune, surrogateMin <= i && i <= surrogateMax: r = RuneError; fallthrough
  case i <= rune3Max: append(p, t3|byte(r>>12), tx|byte(r>>6)&maskx, tx|byte(r)&maskx)
  default: append(p, t4|byte(r>>18), tx|byte(r>>12)&maskx, tx|byte(r>>6)&maskx, tx|byte(r)&maskx)
  \<close>
\<close>

definition encode3 :: "rune \<Rightarrow> string" where
  "encode3 r =
    [char_of (0xE0 OR drop_bit 12 r), char_of (0x80 OR (drop_bit 6 r AND 0x3F)),
     char_of (0x80 OR (r AND 0x3F))]"

definition encodeRune :: "rune \<Rightarrow> string" where
  "encodeRune r =
    (if 0 \<le> r \<and> r \<le> rune1Max then [char_of r]
     else if 0 \<le> r \<and> r \<le> rune2Max then
       [char_of (0xC0 OR drop_bit 6 r), char_of (0x80 OR (r AND 0x3F))]
     else if r < 0 \<or> MaxRune < r \<or> (surrogateMin \<le> r \<and> r \<le> surrogateMax) then
       encode3 RuneError
     else if r \<le> rune3Max then encode3 r
     else
       [char_of (0xF0 OR drop_bit 18 r), char_of (0x80 OR (drop_bit 12 r AND 0x3F)),
        char_of (0x80 OR (drop_bit 6 r AND 0x3F)), char_of (0x80 OR (r AND 0x3F))])"

text \<open>\<^verbatim>\<open>utf8.RuneLen\<close>: the bytes an encoding takes, \<open>-1\<close> for what is not a valid rune.\<close>

definition RuneLen :: "rune \<Rightarrow> int" where
  "RuneLen r =
    (if r < 0 then -1
     else if r \<le> rune1Max then 1
     else if r \<le> rune2Max then 2
     else if surrogateMin \<le> r \<and> r \<le> surrogateMax then -1
     else if r \<le> rune3Max then 3
     else if r \<le> MaxRune then 4
     else -1)"

text \<open>
  \<^verbatim>\<open>unicode.ToUpper\<close>:
  \<^verbatim>\<open>
  if r <= MaxASCII {
      if 'a' <= r && r <= 'z' { r -= 'a' - 'A' }
      return r
  }
  return To(UpperCase, r)
  \<close>
\<close>

definition unicode_ToUpper :: "caseTable \<Rightarrow> rune \<Rightarrow> rune" where
  "unicode_ToUpper tbl r =
    (if r \<le> MaxASCII then (if 0x61 \<le> r \<and> r \<le> 0x7A then r - 0x20 else r)
     else tbl r)"

text \<open>
  The second loop of \<^verbatim>\<open>strings.Map\<close>, over what is left of the string, with the
  builder \<open>b\<close> as accumulator:
  \<^verbatim>\<open>
  for _, c := range s {
      r := mapping(c)
      if r >= 0 {
          if r < utf8.RuneSelf { b.WriteByte(byte(r)) } else { b.WriteRune(r) }
      }
  }
  return b.String()
  \<close>
\<close>

function mapRunes :: "(rune \<Rightarrow> rune) \<Rightarrow> string \<Rightarrow> string \<Rightarrow> string" where
  "mapRunes mapping s b =
    (if s = [] then b
     else
       (let c = fst (nextRune s); w = snd (nextRune s); r = mapping c in
        mapRunes mapping (drop w s)
          (if 0 \<le> r then (if r < RuneSelf then b @ [char_of r] else b @ encodeRune r)
           else b)))"
  by pat_completeness auto
termination
proof (relation "measure (\<lambda>(mapping, s, b). length s)", goal_cases)
  case 1
  show ?case by simp
next
  case (2 mapping s b c w r)
  have "1 \<le> snd (nextRune s)"
    by (simp add: nextRune_def decoderune_def Let_def split: list.split)
  with 2 show ?case by simp
qed

declare mapRunes.simps [simp del]

text \<open>
  The first loop of \<^verbatim>\<open>strings.Map\<close> looks for the first rune the mapping changes
  (or the first invalid byte); when there is none the string itself is returned:
  \<^verbatim>\<open>
  for i, c := range s {
      r := mapping(c)
      if r == c && c != utf8.RuneError { continue }
      var width int
      if c == utf8.RuneError {
          c, width = utf8.DecodeRuneInString(s[i:])
          if width != 1 && r == c { continue }
      } else {
          width = utf8.RuneLen(c)
      }
      b.Grow(len(s) + utf8.UTFMax)
      b.WriteString(s[:i])
      if r >= 0 { b.WriteRune(r) }
      s = s[i+width:]
      break
  }
  if b.Cap() == 0 { return s }
  \<close>
  (\<open>r\<close> is written \<open>mapping c\<close> where it is used.)
  The slice expression \<^verbatim>\<open>s[i+width:]\<close> panics when \<open>i + width\<close> is negative or beyond
  \<open>len(s)\<close>; the model returns \<open>None\<close> there.
\<close>

function mapScan :: "(rune \<Rightarrow> rune) \<Rightarrow> string \<Rightarrow> nat \<Rightarrow> string option" where
  "mapScan mapping s i =
    (if i < length s then
       (case nextRune (drop i s) of
          (c, w) \<Rightarrow>
            if mapping c = c \<and> c \<noteq> RuneError then mapScan mapping s (i + w)
            else
              (let width = (if c = RuneError then int (snd (DecodeRuneInString (drop i s)))
                            else RuneLen c) in
               if c = RuneError \<and> width \<noteq> 1 \<and> mapping c = c then mapScan mapping s (i + w)
               else if int i + width < 0 \<or> int (length s) < int i + width then None
               else Some (mapRunes mapping (drop (nat (int i + width)) s)
                            (take i s @ (if 0 \<le> mapping c then encodeRune (mapping c) else [])))))
     else Some s)"
  by pat_completeness auto
termination
proof (relation "measure (\<lambda>(mapping, s, i). length s - i)", goal_cases)
  case 1
  show ?case by simp
next
  case (2 mapping s i c w)
  have "1 \<le> snd (nextRune (drop i s))"
    by (simp add: nextRune_def decoderune_def Let_def split: list.split)
  moreover have "snd (nextRune (drop i s)) = w"
    using 2(2) by (cases "nextRune (drop i s)") simp
  ultimately show ?case using 2(1) by simp
next
  case (3 mapping s i c w width)
  have "1 \<le> snd (nextRune (drop i s))"
    by (simp add: nextRune_def decoderune_def Let_def split: list.split)
  moreover have "snd (nextRune (drop i s)) = w"
    using 3(2) by (cases "nextRune (drop i s)") simp
  ultimately show ?case using 3(1) by simp
qed

declare mapScan.simps [simp del]

definition Map :: "(rune \<Rightarrow> rune) \<Rightarrow> string \<Rightarrow> string option" where
  "Map mapping s = mapScan mapping s 0"

text \<open>
  \<^verbatim>\<open>strings.ToUpper\<close>. Its first loop decides whether the string is all ASCII and
  whether it has a lower-case letter, stopping at the first byte \<open>>= RuneSelf\<close>:
  \<^verbatim>\<open>
  isASCII, hasLower := true, false
  for i := 0; i < len(s); i++ {
      c := s[i]
      if c >= utf8.RuneSelf { isASCII = false; break }
      hasLower = hasLower || ('a' <= c && c <= 'z')
  }
  if isASCII {
      if !hasLower { return s }
      var b Builder
      b.Grow(len(s))
      for i := 0; i < len(s); i++ {
          c := s[i]
          if 'a' <= c && c <= 'z' { c -= 'a' - 'A' }
          b.WriteByte(c)
      }
      return b.String()
  }
  return Map(unicode.ToUpper, s)
  \<close>
\<close>

fun asciiScan :: "string \<Rightarrow> bool \<Rightarrow> bool \<times> bool" where
  "asciiScan [] hasLower = (True, hasLower)"
| "asciiScan (c # s) hasLower =
    (if RuneSelf \<le> bval c then (False, hasLower)
     else asciiScan s (hasLower \<or> (0x61 \<le> bval c \<and> bval c \<le> 0x7A)))"

fun asciiUpper :: "string \<Rightarrow> string \<Rightarrow> string" where
  "asciiUpper [] b = b"
| "asciiUpper (c # s) b =
    asciiUpper s (b @ [if 0x61 \<le> bval c \<and> bval c \<le> 0x7A then char_of (bval c - 0x20) else c])"

definition ToUpper :: "caseTable \<Rightarrow> string \<Rightarrow> string option" where
  "ToUpper tbl s =
    (case asciiScan s False of
       (isASCII, hasLower) \<Rightarrow>
         if isASCII then (if \<not> hasLower then Some s else Some (asciiUpper s []))
         else Map (unicode_ToUpper tbl) s)"

subsection \<open>\<^verbatim>\<open>unicode.To(unicode.UpperCase, r)\<close> and the case table\<close>

text \<open>
  Above \<open>MaxASCII\<close>, \<open>unicode.ToUpper\<close> returns \<open>To(UpperCase, r)\<close>, which is
  \<open>to(UpperCase, r, CaseRanges)\<close>, a binary search of the table \<open>unicode.CaseRanges\<close>:
  \<^verbatim>\<open>
  lo := 0
  hi := len(caseRange)
  for lo < hi {
      m := int(uint(lo+hi) >> 1)
      cr := caseRange[m]
      if rune(cr.Lo) <= r && r <= rune(cr.Hi) {
          delta := cr.Delta[_case]
          if delta > MaxRune {
              return rune(cr.Lo) + ((r-rune(cr.Lo))&^1 | rune(_case&1)), true
          }
          return r + delta, true
      }
      if r < rune(cr.Lo) { hi = m } else { lo = m + 1 }
  }
  return r, false
  \<close>
  Here \<open>_case\<close> is \<open>UpperCase = 0\<close>, so that \<open>| rune(_case&1)\<close> adds nothing, and an entry of
  the table is modelled by its bounds and its \<open>Delta[UpperCase]\<close>. A delta above \<open>MaxRune\<close>
  (the constant \<open>UpperLower = MaxRune + 1\<close>) marks a range in which upper-case and lower-case
  letters alternate, starting with an upper-case one. The index \<open>m\<close> is below \<open>hi\<close>, which is
  at most the length of the table, so \<open>caseRange[m]\<close> is always in range.
\<close>

definition UpperLower :: int where
  "UpperLower = MaxRune + 1"

function to_search :: "(rune \<times> rune \<times> int) list \<Rightarrow> rune \<Rightarrow> nat \<Rightarrow> nat \<Rightarrow> rune" where
  "to_search caseRange r lo hi =
    (if lo < hi then
       (case caseRange ! ((lo + hi) div 2) of
          (crLo, crHi, delta) \<Rightarrow>
            if crLo \<le> r \<and> r \<le> crHi then
              (if MaxRune < delta then crLo + ((r - crLo) AND NOT 1) else r + delta)
            else if r < crLo then to_search caseRange r lo ((lo + hi) div 2)
            else to_search caseRange r ((lo + hi) div 2 + 1) hi)
     else r)"
  by pat_completeness auto

termination
  by (relation "measure (\<lambda>(caseRange, r, lo, hi). hi - lo)") auto

declare to_search.simps [simp del]

text \<open>
  The table. \<open>unicode.CaseRanges\<close> is data that the library's generator derives from the
  Unicode Character Database; the list below is the upper-case part of that data for
  Unicode 15.0.0 (the version of the \<open>unicode\<close> package of Go 1.21): every code point
  whose simple upper-case mapping in \<open>UnicodeData.txt\<close> differs from the code point itself
  lies in exactly one range, with the delta to its upper-case letter. The ranges are laid out
  from the mapping itself, and the entries of the library's table whose \<open>Delta[UpperCase]\<close>
  is \<open>0\<close>, which leave \<open>r\<close> as it is, are left out; so the list need not split the code
  points at the same places as the library's table, while \<open>To(UpperCase, r)\<close> is the same
  for every \<open>r\<close>. The first entry is never reached, since \<open>unicode.ToUpper\<close> treats ASCII
  itself.
\<close>

definition CaseRanges :: "(rune \<times> rune \<times> int) list" where
  "CaseRanges =
    [(0x0061, 0x007A, - 32), (0x00B5, 0x00B5, 743), (0x00E0, 0x00F6, - 32),
     (0x00F8, 0x00FE, - 32), (0x00FF, 0x00FF, 121), (0x0100, 0x012F, UpperLower),
     (0x0131, 0x0131, - 232), (0x0132, 0x0137, UpperLower), (0x0139, 0x0148, UpperLower),
     (0x014A, 0x0177, UpperLower), (0x0179, 0x017E, UpperLower), (0x017F, 0x017F, - 300),
     (0x0180, 0x0180, 195), (0x0182, 0x0185, UpperLower), (0x0187, 0x0188, UpperLower),
     (0x018B, 0x018C, UpperLower), (0x0191, 0x0192, UpperLower), (0x0195, 0x0195, 97),
     (0x0198, 0x0199, UpperLower), (0x019A, 0x019A, 163), (0x019E, 0x019E, 130),
     (0x01A0, 0x01A5, UpperLower), (0x01A7, 0x01A8, UpperLower), (0x01AC, 0x01AD, UpperLower),
     (0x01AF, 0x01B0, UpperLower), (0x01B3, 0x01B6, UpperLower), (0x01B8, 0x01B9, UpperLower),
     (0x01BC, 0x01BD, UpperLower), (0x01BF, 0x01BF, 56), (0x01C4, 0x01C5, UpperLower),
     (0x01C6, 0x01C6, - 2), (0x01C7, 0x01C8, UpperLower), (0x01C9, 0x01C9, - 2),
     (0x01CA, 0x01CB, UpperLower), (0x01CC, 0x01CC, - 2), (0x01CD, 0x01DC, UpperLower),
     (0x01DD, 0x01DD, - 79), (0x01DE, 0x01EF, UpperLower), (0x01F1, 0x01F2, UpperLower),
     (0x01F3, 0x01F3, - 2), (0x01F4, 0x01F5, UpperLower), (0x01F8, 0x021F, UpperLower),
     (0x0222, 0x0233, UpperLower), (0x023B, 0x023C, UpperLower), (0x023F, 0x0240, 10815),
     (0x0241, 0x0242, UpperLower), (0x0246, 0x024F, UpperLower), (0x0250, 0x0250, 10783),
     (0x0251, 0x0251, 10780), (0x0252, 0x0252, 10782), (0x0253, 0x0253, - 210),
     (0x0254, 0x0254, - 206), (0x0256, 0x0257, - 205), (0x0259, 0x0259, - 202),
     (0x025B, 0x025B, - 203), (0x025C, 0x025C, 42319), (0x0260, 0x0260, - 205),
     (0x0261, 0x0261, 42315), (0x0263, 0x0263, - 207), (0x0265, 0x0265, 42280),
     (0x0266, 0x0266, 42308), (0x0268, 0x0268, - 209), (0x0269, 0x0269, - 211),
     (0x026A, 0x026A, 42308), (0x026B, 0x026B, 10743), (0x026C, 0x026C, 42305),
     (0x026F, 0x026F, - 211), (0x0271, 0x0271, 10749), (0x0272, 0x0272, - 213),
     (0x0275, 0x0275, - 214), (0x027D, 0x027D, 10727), (0x0280, 0x0280, - 218),
     (0x0282, 0x0282, 42307), (0x0283, 0x0283, - 218), (0x0287, 0x0287, 42282),
     (0x0288, 0x0288, - 218), (0x0289, 0x0289, - 69), (0x028A, 0x028B, - 217),
     (0x028C, 0x028C, - 71), (0x0292, 0x0292, - 219), (0x029D, 0x029D, 42261),
     (0x029E, 0x029E, 42258), (0x0345, 0x0345, 84), (0x0370, 0x0373, UpperLower),
     (0x0376, 0x0377, UpperLower), (0x037B, 0x037D, 130), (0x03AC, 0x03AC, - 38),
     (0x03AD, 0x03AF, - 37), (0x03B1, 0x03C1, - 32), (0x03C2, 0x03C2, - 31),
     (0x03C3, 0x03CB, - 32), (0x03CC, 0x03CC, - 64), (0x03CD, 0x03CE, - 63),
     (0x03D0, 0x03D0, - 62), (0x03D1, 0x03D1, - 57), (0x03D5, 0x03D5, - 47),
     (0x03D6, 0x03D6, - 54), (0x03D7, 0x03D7, - 8), (0x03D8, 0x03EF, UpperLower),
     (0x03F0, 0x03F0, - 86), (0x03F1, 0x03F1, - 80), (0x03F2, 0x03F2, 7),
     (0x03F3, 0x03F3, - 116), (0x03F5, 0x03F5, - 96), (0x03F7, 0x03F8, UpperLower),
     (0x03FA, 0x03FB, UpperLower), (0x0430, 0x044F, - 32), (0x0450, 0x045F, - 80),
     (0x0460, 0x0481, UpperLower), (0x048A, 0x04BF, UpperLower), (0x04C1, 0x04CE, UpperLower),
     (0x04CF, 0x04CF, - 15), (0x04D0, 0x052F, UpperLower), (0x0561, 0x0586, - 48),
     (0x10D0, 0x10FA, 3008), (0x10FD, 0x10FF, 3008), (0x13F8, 0x13FD, - 8),
     (0x1C80, 0x1C80, - 6254), (0x1C81, 0x1C81, - 6253), (0x1C82, 0x1C82, - 6244),
     (0x1C83, 0x1C84, - 6242), (0x1C85, 0x1C85, - 6243), (0x1C86, 0x1C86, - 6236),
     (0x1C87, 0x1C87, - 6181), (0x1C88, 0x1C88, 35266), (0x1D79, 0x1D79, 35332),
     (0x1D7D, 0x1D7D, 3814), (0x1D8E, 0x1D8E, 35384), (0x1E00, 0x1E95, UpperLower),
     (0x1E9B, 0x1E9B, - 59), (0x1EA0, 0x1EFF, UpperLower), (0x1F00, 0x1F07, 8),
     (0x1F10, 0x1F15, 8), (0x1F20, 0x1F27, 8), (0x1F30, 0x1F37, 8), (0x1F40, 0x1F45, 8),
     (0x1F51, 0x1F51, 8), (0x1F53, 0x1F53, 8), (0x1F55, 0x1F55, 8), (0x1F57, 0x1F57, 8),
     (0x1F60, 0x1F67, 8), (0x1F70, 0x1F71, 74), (0x1F72, 0x1F75, 86), (0x1F76, 0x1F77, 100),
     (0x1F78, 0x1F79, 128), (0x1F7A, 0x1F7B, 112), (0x1F7C, 0x1F7D, 126), (0x1F80, 0x1F87, 8),
     (0x1F90, 0x1F97, 8), (0x1FA0, 0x1FA7, 8), (0x1FB0, 0x1FB1, 8), (0x1FB3, 0x1FB3, 9),
     (0x1FBE, 0x1FBE, - 7205), (0x1FC3, 0x1FC3, 9), (0x1FD0, 0x1FD1, 8), (0x1FE0, 0x1FE1, 8),
     (0x1FE5, 0x1FE5, 7), (0x1FF3, 0x1FF3, 9), (0x214E, 0x214E, - 28), (0x2170, 0x217F, - 16),
     (0x2183, 0x2184, UpperLower), (0x24D0, 0x24E9, - 26), (0x2C30, 0x2C5F, - 48),
     (0x2C60, 0x2C61, UpperLower), (0x2C65, 0x2C65, - 10795), (0x2C66, 0x2C66, - 10792),
     (0x2C67, 0x2C6C, UpperLower), (0x2C72, 0x2C73, UpperLower), (0x2C75, 0x2C76, UpperLower),
     (0x2C80, 0x2CE3, UpperLower), (0x2CEB, 0x2CEE, UpperLower), (0x2CF2, 0x2CF3, UpperLower),
     (0x2D00, 0x2D25, - 7264), (0x2D27, 0x2D27, - 7264), (0x2D2D, 0x2D2D, - 7264),
     (0xA640, 0xA66D, UpperLower), (0xA680, 0xA69B, UpperLower), (0xA722, 0xA72F, UpperLower),
     (0xA732, 0xA76F, UpperLower), (0xA779, 0xA77C, UpperLower), (0xA77E, 0xA787, UpperLower),
     (0xA78B, 0xA78C, UpperLower), (0xA790, 0xA793, UpperLower), (0xA794, 0xA794, 48),
     (0xA796, 0xA7A9, UpperLower), (0xA7B4, 0xA7C3, UpperLower), (0xA7C7, 0xA7CA, UpperLower),
     (0xA7D0, 0xA7D1, UpperLower), (0xA7D6, 0xA7D9, UpperLower), (0xA7F5, 0xA7F6, UpperLower),
     (0xAB53, 0xAB53, - 928), (0xAB70, 0xABBF, - 38864), (0xFF41, 0xFF5A, - 32),
     (0x10428, 0x1044F, - 40), (0x104D8, 0x104FB, - 40), (0x10597, 0x105A1, - 39),
     (0x105A3, 0x105B1, - 39), (0x105B3, 0x105B9, - 39), (0x105BB, 0x105BC, - 39),
     (0x10CC0, 0x10CF2, - 64), (0x118C0, 0x118DF, - 32), (0x16E60, 0x16E7F, - 32),
     (0x1E922, 0x1E943, - 34)]"

definition To_UpperCase :: caseTable where
  "To_UpperCase r = to_search CaseRanges r 0 (length CaseRanges)"

section \<open>The repository: \<^verbatim>\<open>words.go\<close>\<close>

text \<open>
  \<^verbatim>\<open>func process(word string) string { return strings.ToUpper(word) }\<close>
\<close>

definition process :: "caseTable \<Rightarrow> string \<Rightarrow> string option" where
  "process tbl word = ToUpper tbl word"

text \<open>
  \<^verbatim>\<open>
  type Word struct {
      word  string
      index int
  }
  \<close>
  \<open>index\<close> is a Go \<open>int\<close>; it only ever holds a slice index, which fits.
\<close>

record Word =
  word :: string
  index :: int

subsection \<open>Slices and their backing arrays\<close>

text \<open>
  A Go slice is a header (pointer to the first element, length, capacity) over a backing
  array that other slices may share. The memory holds the backing arrays of
  \<open>[]string\<close> and of \<open>[]Word\<close> values, each addressed by its position, and
  counts the allocations of \<open>[]Word\<close> backing stores. A pointer is \<open>nil\<close>, the
  runtime's \<open>zerobase\<close> (what an allocation of size zero returns), or an element
  \<open>Elem a off\<close>: offset \<open>off\<close> into the array at address \<open>a\<close>. An access outside an
  array is the value \<open>None\<close>.
\<close>

datatype pointer = NilPtr | Zerobase | Elem nat nat

record slice =
  array :: pointer
  len :: nat
  cap :: nat

record memory =
  stringArrays :: "string list list"
  wordArrays :: "Word list list"
  mallocs :: nat

definition zeroWord :: Word where
  "zeroWord = \<lparr>word = [], index = 0\<rparr>"

text \<open>Reading element \<open>i\<close> of a \<open>[]string\<close>, and all the elements of a slice.\<close>

definition loadString :: "memory \<Rightarrow> slice \<Rightarrow> nat \<Rightarrow> string option" where
  "loadString m s i =
    (case array s of
       Elem a off \<Rightarrow>
         if i < len s \<and> a < length (stringArrays m) \<and> off + i < length (stringArrays m ! a)
         then Some (stringArrays m ! a ! (off + i)) else None
     | _ \<Rightarrow> None)"

definition loadStrings :: "memory \<Rightarrow> slice \<Rightarrow> string list option" where
  "loadStrings m s =
    (if len s = 0 then Some []
     else
       (case array s of
          Elem a off \<Rightarrow>
            if a < length (stringArrays m) \<and> off + len s \<le> length (stringArrays m ! a)
            then Some (take (len s) (drop off (stringArrays m ! a))) else None
        | _ \<Rightarrow> None))"

definition loadWords :: "memory \<Rightarrow> slice \<Rightarrow> Word list option" where
  "loadWords m s =
    (if len s = 0 then Some []
     else
       (case array s of
          Elem a off \<Rightarrow>
            if a < length (wordArrays m) \<and> off + len s \<le> length (wordArrays m ! a)
            then Some (take (len s) (drop off (wordArrays m ! a))) else None
        | _ \<Rightarrow> None))"

text \<open>Writing element \<open>i\<close> of a \<open>[]Word\<close>, in place.\<close>

definition storeWord :: "memory \<Rightarrow> slice \<Rightarrow> nat \<Rightarrow> Word \<Rightarrow> memory option" where
  "storeWord m s i x =
    (case array s of
       Elem a off \<Rightarrow>
         if i < len s \<and> a < length (wordArrays m) \<and> off + i < length (wordArrays m ! a)
         then Some (m\<lparr>wordArrays := (wordArrays m)[a := (wordArrays m ! a)[off + i := x]]\<rparr>)
         else None
     | _ \<Rightarrow> None)"

text \<open>
  \<^verbatim>\<open>make([]Word, 0, n)\<close>: a zeroed backing array of \<open>n\<close> elements at a new address, one
  allocation; for \<open>n = 0\<close> the runtime allocates nothing and hands out \<open>zerobase\<close>.
  \<^verbatim>\<open>make([]Word, 0)\<close> is the case \<open>n = 0\<close>.
\<close>

definition makeslice :: "nat \<Rightarrow> memory \<Rightarrow> slice \<times> memory" where
  "makeslice n m =
    (if n = 0 then (\<lparr>array = Zerobase, len = 0, cap = 0\<rparr>, m)
     else
       (\<lparr>array = Elem (length (wordArrays m)) 0, len = 0, cap = n\<rparr>,
        m\<lparr>wordArrays := wordArrays m @ [replicate n zeroWord], mallocs := mallocs m + 1\<rparr>))"

text \<open>
  \<^verbatim>\<open>append(s, x)\<close>: when the capacity does not hold one more element the runtime's
  \<open>growslice\<close> allocates a new backing array and copies the old elements; then the
  element is stored at index \<open>len(s)\<close> of the (old or new) array. The capacity of the
  new array is the runtime's choice (\<open>nextslicecap(newLen, oldCap)\<close>, rounded up to
  a size class), a parameter here; the language only promises that it is large enough,
  hence the \<open>max\<close>.
\<close>

definition growslice ::
  "(nat \<Rightarrow> nat \<Rightarrow> nat) \<Rightarrow> slice \<Rightarrow> nat \<Rightarrow> memory \<Rightarrow> (slice \<times> memory) option" where
  "growslice nextslicecap old newLen m =
    do {
      xs \<leftarrow> loadWords m old;
      let newcap = max newLen (nextslicecap newLen (cap old));
      Some (\<lparr>array = Elem (length (wordArrays m)) 0, len = newLen, cap = newcap\<rparr>,
            m\<lparr>wordArrays := wordArrays m @ [xs @ replicate (newcap - len old) zeroWord],
              mallocs := mallocs m + 1\<rparr>)
    }"

definition append_Word ::
  "(nat \<Rightarrow> nat \<Rightarrow> nat) \<Rightarrow> slice \<Rightarrow> Word \<Rightarrow> memory \<Rightarrow> (slice \<times> memory) option" where
  "append_Word nextslicecap s x m =
    do {
      let newLen = len s + 1;
      (s', m') \<leftarrow> (if cap s < newLen then growslice nextslicecap s newLen m
                   else Some (s\<lparr>len := newLen\<rparr>, m));
      m'' \<leftarrow> storeWord m' s' (newLen - 1) x;
      Some (s', m'')
    }"

subsection \<open>\<^verbatim>\<open>ProcessWords\<close> and \<^verbatim>\<open>ProcessWordsFaster\<close>\<close>

text \<open>
  The loop the two functions share, from index \<open>i\<close> on:
  \<^verbatim>\<open>
  for i, w := range rawWords {
      words = append(words, Word{process(w), i})
  }
  return words
  \<close>
  The range statement evaluates \<open>rawWords\<close> once, so \<open>len rawWords\<close> is fixed; each
  iteration reads \<open>rawWords[i]\<close> from memory.
\<close>

function rangeLoop ::
  "caseTable \<Rightarrow> (nat \<Rightarrow> nat \<Rightarrow> nat) \<Rightarrow> slice \<Rightarrow> nat \<Rightarrow> slice \<Rightarrow> memory
    \<Rightarrow> (slice \<times> memory) option" where
  "rangeLoop tbl nextslicecap rawWords i words m =
    (if i < len rawWords then
       do {
         w \<leftarrow> loadString m rawWords i;
         u \<leftarrow> process tbl w;
         (words', m') \<leftarrow> append_Word nextslicecap words \<lparr>word = u, index = int i\<rparr> m;
         rangeLoop tbl nextslicecap rawWords (i + 1) words' m'
       }
     else Some (words, m))"
  by pat_completeness auto
termination
  by (relation "measure (\<lambda>(tbl, nextslicecap, rawWords, i, words, m). len rawWords - i)") auto

declare rangeLoop.simps [simp del]

text \<open>
  \<^verbatim>\<open>
  func ProcessWords(rawWords []string) []Word {
      words := make([]Word, 0)
      for i, w := range rawWords { words = append(words, Word{process(w), i}) }
      return words
  }
  func ProcessWordsFaster(rawWords []string) []Word {
      words := make([]Word, 0, len(rawWords))
      for i, w := range rawWords { words = append(words, Word{process(w), i}) }
      return words
  }
  \<close>
  Both take the memory and return the slice header together with the memory after the
  call.
\<close>

definition ProcessWords ::
  "caseTable \<Rightarrow> (nat \<Rightarrow> nat \<Rightarrow> nat) \<Rightarrow> slice \<Rightarrow> memory \<Rightarrow> (slice \<times> memory) option" where
  "ProcessWords tbl nextslicecap rawWords m =
    (case makeslice 0 m of (words, m0) \<Rightarrow> rangeLoop tbl nextslicecap rawWords 0 words m0)"

definition ProcessWordsFaster ::
  "caseTable \<Rightarrow> (nat \<Rightarrow> nat \<Rightarrow> nat) \<Rightarrow> slice \<Rightarrow> memory \<Rightarrow> (slice \<times> memory) option" where
  "ProcessWordsFaster tbl nextslicecap rawWords m =
    (case makeslice (len rawWords) m of
       (words, m0) \<Rightarrow> rangeLoop tbl nextslicecap rawWords 0 words m0)"

text \<open>
  What the caller sees of a call: the elements of the returned slice, read from the memory
  the call leaves; \<open>None\<close> when the call panicked.
\<close>

definition returned :: "(slice \<times> memory) option \<Rightarrow> Word list option" where
  "returned r = do { (out, m') \<leftarrow> r; loadWords m' out }"

section \<open>Notions for the statements and their proofs\<close>

text \<open>A Unicode scalar value (\<open>utf8.ValidRune\<close>): in range and not a surrogate.\<close>

definition scalar :: "rune \<Rightarrow> bool" where
  "scalar r = (0 \<le> r \<and> r \<le> MaxRune \<and> \<not> (surrogateMin \<le> r \<and> r \<le> surrogateMax))"

text \<open>
  The runes that two, three and four bytes spell, written with \<open>+\<close> and \<open>*\<close> instead of
  shifts and masks (the bytes being in the ranges the decoder checks).
\<close>

definition r2 :: "char \<Rightarrow> char \<Rightarrow> int" where
  "r2 c0 c1 = (bval c0 - 192) * 64 + (bval c1 - 128)"

definition r3 :: "char \<Rightarrow> char \<Rightarrow> char \<Rightarrow> int" where
  "r3 c0 c1 c2 = (bval c0 - 224) * 4096 + (bval c1 - 128) * 64 + (bval c2 - 128)"

definition r4 :: "char \<Rightarrow> char \<Rightarrow> char \<Rightarrow> char \<Rightarrow> int" where
  "r4 c0 c1 c2 c3 = (bval c0 - 240) * 262144 + (bval c1 - 128) * 4096 + (bval c2 - 128) * 64 + (bval c3 - 128)"

text \<open>What the second loop of \<open>strings.Map\<close> appends for a mapped rune \<open>r\<close>.\<close>

definition written :: "rune \<Rightarrow> string" where
  "written r = (if 0 \<le> r then (if r < RuneSelf then [char_of r] else encodeRune r) else [])"

text \<open>The ASCII loop of \<open>strings.ToUpper\<close> on one byte.\<close>

definition upperByte :: "char \<Rightarrow> char" where
  "upperByte c = (if 0x61 \<le> bval c \<and> bval c \<le> 0x7A then char_of (bval c - 0x20) else c)"

text \<open>
  A case table that maps scalar values above \<open>MaxASCII\<close> to scalar values which
  \<open>unicode.ToUpper\<close> maps to themselves.
\<close>

definition caseTable_closed :: "caseTable \<Rightarrow> bool" where
  "caseTable_closed tbl =
    (\<forall>c. MaxASCII < c \<and> scalar c \<longrightarrow> scalar (tbl c) \<and> unicode_ToUpper tbl (tbl c) = tbl c)"

text \<open>
  The case table read from its first entry on, which finds the same entry as the binary
  search when the ranges are in ascending order and do not overlap (\<open>sortedRanges\<close>).
\<close>

fun toUpperIn :: "(rune \<times> rune \<times> int) list \<Rightarrow> rune \<Rightarrow> rune" where
  "toUpperIn [] r = r"
| "toUpperIn ((lo, hi, delta) # caseRange) r =
    (if lo \<le> r \<and> r \<le> hi then
       (if MaxRune < delta then lo + ((r - lo) AND NOT 1) else r + delta)
     else toUpperIn caseRange r)"

fun sortedRanges :: "(rune \<times> rune \<times> int) list \<Rightarrow> bool" where
  "sortedRanges [] = True"
| "sortedRanges [(lo, hi, d)] = (lo \<le> hi)"
| "sortedRanges ((lo, hi, d) # (lo', hi', d') # cs) =
    (lo \<le> hi \<and> hi < lo' \<and> sortedRanges ((lo', hi', d') # cs))"

text \<open>
  A check of a case table that can be run. \<open>fixedInterval cs a b\<close>: the sorted table \<open>cs\<close>
  maps every rune of \<open>[a, b]\<close> to itself, because no range meets the interval, or the
  interval is one rune at an even offset of an \<open>UpperLower\<close> range. \<open>fixedEven cs lo hi\<close>:
  it maps the runes at even offsets from \<open>lo\<close> in \<open>[lo, hi]\<close> to themselves. \<open>entryOK\<close>: the
  runes an entry maps to are Unicode scalar values, none of them an ASCII lower-case
  letter, and the table maps them to themselves.
\<close>

fun fixedInterval :: "(rune \<times> rune \<times> int) list \<Rightarrow> rune \<Rightarrow> rune \<Rightarrow> bool" where
  "fixedInterval [] a b = True"
| "fixedInterval ((lo, hi, d) # cs) a b =
    (if hi < a then fixedInterval cs a b
     else if b < lo then True
     else (MaxRune < d \<and> a = b \<and> even (a - lo)) \<and> fixedInterval cs a b)"

fun fixedEven :: "(rune \<times> rune \<times> int) list \<Rightarrow> rune \<Rightarrow> rune \<Rightarrow> bool" where
  "fixedEven [] lo hi = True"
| "fixedEven ((lo', hi', d') # cs) lo hi =
    (if hi' < lo then fixedEven cs lo hi
     else if hi < lo' then True
     else (MaxRune < d' \<and> even (lo - lo')) \<and> fixedEven cs lo hi)"

definition entryOK :: "(rune \<times> rune \<times> int) list \<Rightarrow> rune \<times> rune \<times> int \<Rightarrow> bool" where
  "entryOK cs e =
    (case e of
       (lo, hi, d) \<Rightarrow>
         if MaxRune < d then
           MaxASCII < lo \<and> hi \<le> MaxRune \<and> (hi < surrogateMin \<or> surrogateMax < lo)
           \<and> fixedEven cs lo hi
         else
           0 \<le> lo + d \<and> hi + d \<le> MaxRune
           \<and> (hi + d < surrogateMin \<or> surrogateMax < lo + d)
           \<and> (hi + d < 0x61 \<or> 0x7A < lo + d)
           \<and> fixedInterval cs (lo + d) (hi + d))"

definition checkRanges :: "(rune \<times> rune \<times> int) list \<Rightarrow> bool" where
  "checkRanges cs = (sortedRanges cs \<and> list_all (entryOK cs) cs)"

text \<open>
  A well-formed \<open>[]Word\<close> slice: its capacity lies inside its backing array, or it has
  capacity \<open>0\<close> and no array. \<open>fresh n0 s\<close>: the array of \<open>s\<close>, if it has one, is not among
  the first \<open>n0\<close>.
\<close>

definition validWords :: "memory \<Rightarrow> slice \<Rightarrow> bool" where
  "validWords m s =
    (len s \<le> cap s \<and>
     (case array s of
        Elem a off \<Rightarrow> a < length (wordArrays m) \<and> off + cap s \<le> length (wordArrays m ! a)
      | _ \<Rightarrow> cap s = 0))"

definition fresh :: "nat \<Rightarrow> slice \<Rightarrow> bool" where
  "fresh n0 s = (case array s of Elem a off \<Rightarrow> n0 \<le> a | _ \<Rightarrow> True)"

text \<open>The string \<open>process\<close> returns (it always returns one, see \<open>process_eq\<close> below).\<close>

definition upper :: "caseTable \<Rightarrow> string \<Rightarrow> string" where
  "upper tbl w = mapRunes (unicode_ToUpper tbl) w []"

text \<open>
  How the memory \<open>m'\<close> and the slice \<open>ws'\<close> after some steps of the loop relate to the memory
  \<open>m\<close> before: the slice is well formed, the \<open>[]string\<close> arrays and the first \<open>n0\<close>
  \<open>[]Word\<close> arrays are as they were, and every new array is counted as an allocation.
\<close>

definition advanced :: "nat \<Rightarrow> memory \<Rightarrow> memory \<Rightarrow> slice \<Rightarrow> bool" where
  "advanced n0 m m' ws' =
    (validWords m' ws' \<and> fresh n0 ws'
     \<and> stringArrays m' = stringArrays m
     \<and> take n0 (wordArrays m') = take n0 (wordArrays m)
     \<and> mallocs m \<le> mallocs m'
     \<and> length (wordArrays m') = length (wordArrays m) + (mallocs m' - mallocs m))"

text \<open>The records for the input \<open>S\<close>: element \<open>j\<close> upper-cased, with \<open>j\<close>.\<close>

definition wanted :: "caseTable \<Rightarrow> string list \<Rightarrow> Word list" where
  "wanted tbl S = map (\<lambda>j. \<lparr>word = upper tbl (S ! j), index = int j\<rparr>) [0..<length S]"

text \<open>
  A slice that points into an array allocated after the first \<open>n0\<close> ones, or that has no
  backing store at all.
\<close>

definition allocatedSince :: "nat \<Rightarrow> slice \<Rightarrow> bool" where
  "allocatedSince n0 s = (case array s of Elem a off \<Rightarrow> n0 \<le> a | _ \<Rightarrow> cap s = 0)"

section \<open>Example inputs\<close>

text \<open>
  The input of the first scenario, alone in memory and filling its array; a runtime that
  doubles the capacity when a slice grows; a nil slice.
\<close>

definition exampleWords :: "string list" where
  "exampleWords = [''the'', ''Whale'', ''IS'', ''big'']"

definition exampleMemory :: memory where
  "exampleMemory = \<lparr>stringArrays = [exampleWords], wordArrays = [], mallocs = 0\<rparr>"

definition exampleSlice :: slice where
  "exampleSlice = \<lparr>array = Elem 0 0, len = 4, cap = 4\<rparr>"

definition doubling :: "nat \<Rightarrow> nat \<Rightarrow> nat" where
  "doubling newLen oldCap = 2 * oldCap"

definition nilSlice :: slice where
  "nilSlice = \<lparr>array = NilPtr, len = 0, cap = 0\<rparr>"

text \<open>An input with bytes that are not valid UTF-8, in a slice that starts inside its array.\<close>

definition invalidWords :: "string list" where
  "invalidWords = [[CHR 0xFF, CHR ''a''], [CHR 0xC3, CHR 0xA9, CHR 0xE2, CHR 0x82]]"

definition invalidMemory :: memory where
  "invalidMemory = \<lparr>stringArrays = [[], ''x'' # invalidWords], wordArrays = [[zeroWord]], mallocs = 7\<rparr>"

definition invalidSlice :: slice where
  "invalidSlice = \<lparr>array = Elem 1 1, len = 2, cap = 2\<rparr>"

text \<open>
  A fragment of the Unicode case table, for the Latin-1 letters: \<open>U+00E0..U+00FE\<close> without
  the division sign map \<open>0x20\<close> down, \<open>U+00FF\<close> maps to \<open>U+0178\<close> and the micro sign
  \<open>U+00B5\<close> to \<open>U+039C\<close>.
\<close>

definition latin1Upper :: caseTable where
  "latin1Upper r =
    (if 0xE0 \<le> r \<and> r \<le> 0xFE \<and> r \<noteq> 0xF7 then r - 0x20
     else if r = 0xFF then 0x178
     else if r = 0xB5 then 0x39C
     else r)"

text \<open>
  ASCII letters around \<open>U+00E9\<close>, \<open>U+00FF\<close> and a byte that is not UTF-8.
\<close>

definition mixedText :: string where
  "mixedText = [CHR ''a'', CHR 0xC3, CHR 0xA9, CHR 0xC3, CHR 0xBF, CHR 0xFF, CHR ''z'']"

text \<open>
  Text whose letters change their length in UTF-8 when upper-cased, or do not change at
  all: \<open>g\<close>, \<open>U+00DF\<close>, \<open>U+0131\<close>, \<open>U+0250\<close>, \<open>U+01C6\<close>, \<open>U+1F80\<close>, \<open>U+10428\<close>, a cut-off
  three-byte sequence and \<open>o\<close>.
\<close>

definition caseText :: string where
  "caseText =
    [CHR ''g'', CHR 0xC3, CHR 0x9F, CHR 0xC4, CHR 0xB1, CHR 0xC9, CHR 0x90, CHR 0xC7, CHR 0x86,
     CHR 0xE1, CHR 0xBE, CHR 0x80, CHR 0xF0, CHR 0x90, CHR 0x90, CHR 0xA8, CHR 0xE2, CHR 0x82, CHR ''o'']"

text \<open>An input with a word that is not ASCII: \<open>caf\<close> and \<open>U+00E9\<close>.\<close>

definition accentWords :: "string list" where
  "accentWords = [[CHR ''c'', CHR ''a'', CHR ''f'', CHR 0xC3, CHR 0xA9], ''Whale'']"

definition accentMemory :: memory where
  "accentMemory = \<lparr>stringArrays = [accentWords], wordArrays = [], mallocs = 0\<rparr>"

definition accentSlice :: slice where
  "accentSlice = \<lparr>array = Elem 0 0, len = 2, cap = 2\<rparr>"

text \<open>The input of the second scenario.\<close>

definition singleMemory :: memory where
  "singleMemory = \<lparr>stringArrays = [[''a'']], wordArrays = [], mallocs = 0\<rparr>"

definition singleSlice :: slice where
  "singleSlice = \<lparr>array = Elem 0 0, len = 1, cap = 1\<rparr>"

text \<open>
  A memory with two \<open>[]string\<close> arrays, and two slices of the second: all of it, and its
  first two elements.
\<close>

definition otherMemory :: memory where
  "otherMemory = \<lparr>stringArrays = [[''a''], [''x'', [], ''IS'']], wordArrays = [], mallocs = 0\<rparr>"

definition otherSlice :: slice where
  "otherSlice = \<lparr>array = Elem 1 0, len = 3, cap = 3\<rparr>"

definition emptyAtOne :: slice where
  "emptyAtOne = \<lparr>array = Elem 1 0, len = 2, cap = 3\<rparr>"

section \<open>Facts about the UTF-8 codec and \<^verbatim>\<open>strings.ToUpper\<close>\<close>

lemma nextRune_width: "1 \<le> snd (nextRune s)"
  by (simp add: nextRune_def decoderune_def Let_def split: list.split)

lemma bval_ge0: "0 \<le> bval c"
  by (cases c) simp

lemma bval_char_of: "0 \<le> x \<Longrightarrow> x < 256 \<Longrightarrow> bval (char_of x) = x"
  by (simp add: of_char_of)

lemma and_63: "(x::int) AND 0x3F = x mod 64"
proof -
  have "(0x3F::int) = mask 6" by (simp add: mask_eq_exp_minus_1)
  then show ?thesis by (simp only: flip: take_bit_eq_mask) (simp add: take_bit_eq_mod)
qed

lemma and_31: "(x::int) AND 0x1F = x mod 32"
proof -
  have "(0x1F::int) = mask 5" by (simp add: mask_eq_exp_minus_1)
  then show ?thesis by (simp only: flip: take_bit_eq_mask) (simp add: take_bit_eq_mod)
qed

lemma and_15: "(x::int) AND 0x0F = x mod 16"
proof -
  have "(0x0F::int) = mask 4" by (simp add: mask_eq_exp_minus_1)
  then show ?thesis by (simp only: flip: take_bit_eq_mask) (simp add: take_bit_eq_mod)
qed

lemma and_7: "(x::int) AND 0x07 = x mod 8"
proof -
  have "(0x07::int) = mask 3" by (simp add: mask_eq_exp_minus_1)
  then show ?thesis by (simp only: flip: take_bit_eq_mask) (simp add: take_bit_eq_mod)
qed

lemma or_push_bit:
  fixes a b :: int
  assumes "0 \<le> b" and "b < 2 ^ n"
  shows "push_bit n a OR b = a * 2 ^ n + b"
proof -
  have b: "take_bit n b = b"
    using assms by (simp add: take_bit_int_eq_self)
  have "push_bit n a + b = push_bit n a OR b"
  proof (rule disjunctive_add)
    fix k
    show "\<not> bit (push_bit n a) k \<or> \<not> bit b k"
    proof (cases "k < n")
      case True
      then show ?thesis by (simp add: bit_push_bit_iff)
    next
      case False
      then have "\<not> bit (take_bit n b) k" by (simp add: bit_take_bit_iff)
      then show ?thesis by (simp add: b)
    qed
  qed
  then show ?thesis by (simp add: push_bit_eq_mult)
qed

lemma or_C0: "0 \<le> x \<Longrightarrow> x < 64 \<Longrightarrow> (0xC0::int) OR x = 192 + x"
  using or_push_bit [of x 6 3] by simp
lemma or_80: "0 \<le> x \<Longrightarrow> x < 64 \<Longrightarrow> (0x80::int) OR x = 128 + x"
  using or_push_bit [of x 6 2] by simp
lemma or_E0: "0 \<le> x \<Longrightarrow> x < 16 \<Longrightarrow> (0xE0::int) OR x = 224 + x"
  using or_push_bit [of x 4 14] by simp
lemma or_F0: "0 \<le> x \<Longrightarrow> x < 8 \<Longrightarrow> (0xF0::int) OR x = 240 + x"
  using or_push_bit [of x 3 30] by simp

lemma bits2:
  fixes v0 v1 :: int
  assumes "0xC0 \<le> v0" "v0 < 0xE0" "0x80 \<le> v1" "v1 \<le> 0xBF"
  shows "push_bit 6 (v0 AND 0x1F) OR (v1 AND 0x3F) = (v0 - 192) * 64 + (v1 - 128)"
proof -
  have a: "v0 mod 32 = v0 - 192" using assms by presburger
  have b: "v1 mod 64 = v1 - 128" using assms by presburger
  have "push_bit 6 (v0 - 192) OR (v1 - 128) = (v0 - 192) * 2 ^ 6 + (v1 - 128)"
    using assms by (intro or_push_bit) simp_all
  then show ?thesis by (simp add: and_31 and_63 a b)
qed

lemma bits3:
  fixes v0 v1 v2 :: int
  assumes "0xE0 \<le> v0" "v0 < 0xF0" "0x80 \<le> v1" "v1 \<le> 0xBF" "0x80 \<le> v2" "v2 \<le> 0xBF"
  shows "push_bit 12 (v0 AND 0x0F) OR push_bit 6 (v1 AND 0x3F) OR (v2 AND 0x3F)
         = (v0 - 224) * 4096 + (v1 - 128) * 64 + (v2 - 128)"
proof -
  have a: "v0 mod 16 = v0 - 224" using assms by presburger
  have b: "v1 mod 64 = v1 - 128" using assms by presburger
  have c: "v2 mod 64 = v2 - 128" using assms by presburger
  have i: "push_bit 6 (v1 - 128) OR (v2 - 128) = (v1 - 128) * 2 ^ 6 + (v2 - 128)"
    using assms by (intro or_push_bit) simp_all
  have "push_bit 12 (v0 - 224) OR ((v1 - 128) * 64 + (v2 - 128))
        = (v0 - 224) * 2 ^ 12 + ((v1 - 128) * 64 + (v2 - 128))"
    using assms by (intro or_push_bit) simp_all
  then show ?thesis using i by (simp add: and_15 and_63 a b c)
qed

lemma bits4:
  fixes v0 v1 v2 v3 :: int
  assumes "0xF0 \<le> v0" "v0 < 0xF8" "0x80 \<le> v1" "v1 \<le> 0xBF" "0x80 \<le> v2" "v2 \<le> 0xBF"
    "0x80 \<le> v3" "v3 \<le> 0xBF"
  shows "push_bit 18 (v0 AND 0x07) OR push_bit 12 (v1 AND 0x3F) OR push_bit 6 (v2 AND 0x3F)
           OR (v3 AND 0x3F)
         = (v0 - 240) * 262144 + (v1 - 128) * 4096 + (v2 - 128) * 64 + (v3 - 128)"
proof -
  have a: "v0 mod 8 = v0 - 240" using assms by presburger
  have b: "v1 mod 64 = v1 - 128" using assms by presburger
  have c: "v2 mod 64 = v2 - 128" using assms by presburger
  have d: "v3 mod 64 = v3 - 128" using assms by presburger
  have i: "push_bit 6 (v2 - 128) OR (v3 - 128) = (v2 - 128) * 2 ^ 6 + (v3 - 128)"
    using assms by (intro or_push_bit) simp_all
  have j: "push_bit 12 (v1 - 128) OR ((v2 - 128) * 64 + (v3 - 128))
        = (v1 - 128) * 2 ^ 12 + ((v2 - 128) * 64 + (v3 - 128))"
    using assms by (intro or_push_bit) simp_all
  have "push_bit 18 (v0 - 240) OR ((v1 - 128) * 4096 + ((v2 - 128) * 64 + (v3 - 128)))
        = (v0 - 240) * 2 ^ 18 + ((v1 - 128) * 4096 + ((v2 - 128) * 64 + (v3 - 128)))"
    using assms by (intro or_push_bit) simp_all
  then show ?thesis using i j by (simp add: and_7 and_63 a b c d)
qed

lemma decoderune_class2:
  assumes "0xC0 \<le> bval c0" "bval c0 < 0xE0"
  shows "decoderune (c0 # c1 # t) =
    (if contb c1 \<and> 0x7F < r2 c0 c1 then (r2 c0 c1, 2) else (RuneError, 1))"
proof -
  have c: "0xC0 \<le> bval c0 \<and> bval c0 < 0xE0"
    using assms by simp
  have n: "(c0 # c1 # t) ! 1 = c1"
    by simp
  show ?thesis
  proof (cases "contb c1")
    case True
    then have "push_bit 6 (bval c0 AND 0x1F) OR (bval c1 AND 0x3F) = r2 c0 c1"
      unfolding r2_def contb_def using assms by (intro bits2) simp_all
    with True show ?thesis
      unfolding decoderune_def list.case Let_def n
      by (simp add: c del: push_bit_and)
  next
    case False
    then show ?thesis
      unfolding decoderune_def list.case Let_def n
      by (auto simp add: c simp del: push_bit_and)
  qed
qed

lemma decoderune_class3:
  assumes "0xE0 \<le> bval c0" "bval c0 < 0xF0"
  shows "decoderune (c0 # c1 # c2 # t) =
    (if contb c1 \<and> contb c2 \<and> 0x7FF < r3 c0 c1 c2
        \<and> \<not> (surrogateMin \<le> r3 c0 c1 c2 \<and> r3 c0 c1 c2 \<le> surrogateMax)
     then (r3 c0 c1 c2, 3) else (RuneError, 1))"
proof -
  have c: "\<not> (0xC0 \<le> bval c0 \<and> bval c0 < 0xE0)" "0xE0 \<le> bval c0 \<and> bval c0 < 0xF0"
    using assms by simp_all
  have n: "(c0 # c1 # c2 # t) ! 1 = c1" "(c0 # c1 # c2 # t) ! 2 = c2"
    by simp_all
  show ?thesis
  proof (cases "contb c1 \<and> contb c2")
    case True
    then have "push_bit 12 (bval c0 AND 0x0F) OR push_bit 6 (bval c1 AND 0x3F) OR (bval c2 AND 0x3F)
      = r3 c0 c1 c2"
      unfolding r3_def contb_def using assms by (intro bits3) simp_all
    with True show ?thesis
      unfolding decoderune_def list.case Let_def n
      by (simp add: c del: push_bit_and)
  next
    case False
    then show ?thesis
      unfolding decoderune_def list.case Let_def n
      by (auto simp add: c simp del: push_bit_and)
  qed
qed

lemma decoderune_class4:
  assumes "0xF0 \<le> bval c0" "bval c0 < 0xF8"
  shows "decoderune (c0 # c1 # c2 # c3 # t) =
    (if contb c1 \<and> contb c2 \<and> contb c3 \<and> 0xFFFF < r4 c0 c1 c2 c3 \<and> r4 c0 c1 c2 c3 \<le> MaxRune
     then (r4 c0 c1 c2 c3, 4) else (RuneError, 1))"
proof -
  have c: "\<not> (0xC0 \<le> bval c0 \<and> bval c0 < 0xE0)" "\<not> (0xE0 \<le> bval c0 \<and> bval c0 < 0xF0)"
    "0xF0 \<le> bval c0 \<and> bval c0 < 0xF8"
    using assms by simp_all
  have n: "(c0 # c1 # c2 # c3 # t) ! 1 = c1" "(c0 # c1 # c2 # c3 # t) ! 2 = c2"
    "(c0 # c1 # c2 # c3 # t) ! 3 = c3"
    by simp_all
  show ?thesis
  proof (cases "contb c1 \<and> contb c2 \<and> contb c3")
    case True
    then have "push_bit 18 (bval c0 AND 0x07) OR push_bit 12 (bval c1 AND 0x3F)
      OR push_bit 6 (bval c2 AND 0x3F) OR (bval c3 AND 0x3F) = r4 c0 c1 c2 c3"
      unfolding r4_def contb_def using assms by (intro bits4) simp_all
    with True show ?thesis
      unfolding decoderune_def list.case Let_def n
      by (simp add: c del: push_bit_and)
  next
    case False
    then show ?thesis
      unfolding decoderune_def list.case Let_def n
      by (auto simp add: c simp del: push_bit_and)
  qed
qed

lemma decoderune_short2:
  assumes "0xC0 \<le> bval c0" "bval c0 < 0xE0"
  shows "decoderune [c0] = (RuneError, 1)"
  using assms by (simp add: decoderune_def Let_def del: push_bit_and)

lemma decoderune_short3:
  assumes "0xE0 \<le> bval c0" "bval c0 < 0xF0" "length s' < 2"
  shows "decoderune (c0 # s') = (RuneError, 1)"
  using assms by (simp add: decoderune_def Let_def del: push_bit_and)

lemma decoderune_short4:
  assumes "0xF0 \<le> bval c0" "bval c0 < 0xF8" "length s' < 3"
  shows "decoderune (c0 # s') = (RuneError, 1)"
  using assms by (simp add: decoderune_def Let_def del: push_bit_and)

lemma decoderune_classx:
  assumes "bval c0 < 0xC0 \<or> 0xF8 \<le> bval c0"
  shows "decoderune (c0 # s') = (RuneError, 1)"
proof -
  have "\<not> (0xC0 \<le> bval c0 \<and> bval c0 < 0xE0)" "\<not> (0xE0 \<le> bval c0 \<and> bval c0 < 0xF0)"
    "\<not> (0xF0 \<le> bval c0 \<and> bval c0 < 0xF8)"
    using assms by auto
  then show ?thesis
    unfolding decoderune_def list.case Let_def by (simp only: if_False)
qed

lemma encodeRune_1: "0 \<le> r \<Longrightarrow> r \<le> 0x7F \<Longrightarrow> encodeRune r = [char_of r]"
  by (simp add: encodeRune_def)

lemma encodeRune_2:
  assumes "0x80 \<le> r" "r \<le> 0x7FF"
  shows "encodeRune r = [char_of (192 + r div 64), char_of (128 + r mod 64)]"
proof -
  have "(0xC0::int) OR (r div 64) = 192 + r div 64"
    using assms by (intro or_C0) simp_all
  moreover have "(0x80::int) OR (r mod 64) = 128 + r mod 64"
    by (intro or_80) simp_all
  ultimately show ?thesis
    using assms by (simp add: encodeRune_def drop_bit_eq_div and_63)
qed

lemma encode3_arith:
  assumes "0x800 \<le> r" "r \<le> 0xFFFF"
  shows "encode3 r = [char_of (224 + r div 4096), char_of (128 + (r div 64) mod 64),
                      char_of (128 + r mod 64)]"
proof -
  have "(0xE0::int) OR (r div 4096) = 224 + r div 4096"
    using assms by (intro or_E0) simp_all
  moreover have "(0x80::int) OR ((r div 64) mod 64) = 128 + (r div 64) mod 64"
    by (intro or_80) simp_all
  moreover have "(0x80::int) OR (r mod 64) = 128 + r mod 64"
    by (intro or_80) simp_all
  ultimately show ?thesis
    by (simp add: encode3_def drop_bit_eq_div and_63)
qed

lemma encodeRune_3:
  assumes "0x800 \<le> r" "r \<le> 0xFFFF" "\<not> (surrogateMin \<le> r \<and> r \<le> surrogateMax)"
  shows "encodeRune r = [char_of (224 + r div 4096), char_of (128 + (r div 64) mod 64),
                         char_of (128 + r mod 64)]"
  using assms encode3_arith [of r] by (auto simp add: encodeRune_def)

lemma encodeRune_4:
  assumes "0x10000 \<le> r" "r \<le> 0x10FFFF"
  shows "encodeRune r = [char_of (240 + r div 262144), char_of (128 + (r div 4096) mod 64),
                         char_of (128 + (r div 64) mod 64), char_of (128 + r mod 64)]"
proof -
  have "(0xF0::int) OR (r div 262144) = 240 + r div 262144"
    using assms by (intro or_F0) simp_all
  moreover have "(0x80::int) OR ((r div 4096) mod 64) = 128 + (r div 4096) mod 64"
    by (intro or_80) simp_all
  moreover have "(0x80::int) OR ((r div 64) mod 64) = 128 + (r div 64) mod 64"
    by (intro or_80) simp_all
  moreover have "(0x80::int) OR (r mod 64) = 128 + r mod 64"
    by (intro or_80) simp_all
  ultimately show ?thesis
    using assms by (simp add: encodeRune_def drop_bit_eq_div and_63)
qed

lemma divmod64:
  fixes a b :: int
  assumes "0 \<le> b" "b < 64"
  shows "(a * 64 + b) div 64 = a" "(a * 64 + b) mod 64 = b"
  using assms by simp_all

lemma div4096: "(r::int) div 4096 = r div 64 div 64"
proof -
  have "r div 4096 = r div (64 * 64)" by simp
  also have "\<dots> = r div 64 div 64" by (rule zdiv_zmult2_eq) simp
  finally show ?thesis .
qed

lemma div262144: "(r::int) div 262144 = r div 4096 div 64"
proof -
  have "r div 262144 = r div (4096 * 64)" by simp
  also have "\<dots> = r div 4096 div 64" by (rule zdiv_zmult2_eq) simp
  finally show ?thesis .
qed

lemma r2_props:
  assumes "0xC0 \<le> bval c0" "bval c0 < 0xE0" "contb c1" "0x7F < r2 c0 c1"
  shows "r2 c0 c1 \<le> 0x7FF" and "encodeRune (r2 c0 c1) = [c0, c1]"
proof -
  define a where "a = bval c0 - 192"
  define b where "b = bval c1 - 128"
  have ab: "0 \<le> a" "a < 32" "0 \<le> b" "b < 64"
    using assms(1-3) by (simp_all add: a_def b_def contb_def)
  have r: "r2 c0 c1 = a * 64 + b"
    by (simp add: r2_def a_def b_def)
  show le: "r2 c0 c1 \<le> 0x7FF"
    using ab by (simp add: r)
  have d1: "r2 c0 c1 mod 64 = b" and d2: "r2 c0 c1 div 64 = a"
    unfolding r using ab(3,4) by (rule divmod64)+
  have "encodeRune (r2 c0 c1) = [char_of (192 + a), char_of (128 + b)]"
    using assms(4) le by (simp add: encodeRune_2 d1 d2)
  then show "encodeRune (r2 c0 c1) = [c0, c1]"
    by (simp add: a_def b_def)
qed

lemma r3_props:
  assumes "0xE0 \<le> bval c0" "bval c0 < 0xF0" "contb c1" "contb c2" "0x7FF < r3 c0 c1 c2"
    "\<not> (surrogateMin \<le> r3 c0 c1 c2 \<and> r3 c0 c1 c2 \<le> surrogateMax)"
  shows "r3 c0 c1 c2 \<le> 0xFFFF" and "encodeRune (r3 c0 c1 c2) = [c0, c1, c2]"
proof -
  define a where "a = bval c0 - 224"
  define b where "b = bval c1 - 128"
  define c where "c = bval c2 - 128"
  have abc: "0 \<le> a" "a < 16" "0 \<le> b" "b < 64" "0 \<le> c" "c < 64"
    using assms(1-4) by (simp_all add: a_def b_def c_def contb_def)
  have r: "r3 c0 c1 c2 = (a * 64 + b) * 64 + c"
    by (simp add: r3_def a_def b_def c_def)
  show le: "r3 c0 c1 c2 \<le> 0xFFFF"
    using abc by (simp add: r)
  have d1: "r3 c0 c1 c2 mod 64 = c" and d2: "r3 c0 c1 c2 div 64 = a * 64 + b"
    unfolding r using abc(5,6) by (rule divmod64)+
  have d3: "(r3 c0 c1 c2 div 64) mod 64 = b" and d4: "(r3 c0 c1 c2 div 64) div 64 = a"
    unfolding d2 using abc(3,4) by (rule divmod64)+
  have d5: "r3 c0 c1 c2 div 4096 = a"
    using d4 by (simp only: div4096)
  have "encodeRune (r3 c0 c1 c2) = [char_of (224 + a), char_of (128 + b), char_of (128 + c)]"
    using assms(5,6) le by (simp add: encodeRune_3 d1 d3 d5)
  then show "encodeRune (r3 c0 c1 c2) = [c0, c1, c2]"
    by (simp add: a_def b_def c_def)
qed

lemma r4_props:
  assumes "0xF0 \<le> bval c0" "bval c0 < 0xF8" "contb c1" "contb c2" "contb c3"
    "0xFFFF < r4 c0 c1 c2 c3" "r4 c0 c1 c2 c3 \<le> MaxRune"
  shows "encodeRune (r4 c0 c1 c2 c3) = [c0, c1, c2, c3]"
proof -
  define a where "a = bval c0 - 240"
  define b where "b = bval c1 - 128"
  define c where "c = bval c2 - 128"
  define d where "d = bval c3 - 128"
  have abc: "0 \<le> a" "a < 8" "0 \<le> b" "b < 64" "0 \<le> c" "c < 64" "0 \<le> d" "d < 64"
    using assms(1-5) by (simp_all add: a_def b_def c_def d_def contb_def)
  have r: "r4 c0 c1 c2 c3 = ((a * 64 + b) * 64 + c) * 64 + d"
    by (simp add: r4_def a_def b_def c_def d_def)
  have d1: "r4 c0 c1 c2 c3 mod 64 = d" and d2: "r4 c0 c1 c2 c3 div 64 = (a * 64 + b) * 64 + c"
    unfolding r using abc(7,8) by (rule divmod64)+
  have d3: "(r4 c0 c1 c2 c3 div 64) mod 64 = c" and d4: "(r4 c0 c1 c2 c3 div 64) div 64 = a * 64 + b"
    unfolding d2 using abc(5,6) by (rule divmod64)+
  have d5: "r4 c0 c1 c2 c3 div 4096 = a * 64 + b"
    using d4 by (simp only: div4096)
  have d6: "(r4 c0 c1 c2 c3 div 4096) mod 64 = b" and d7: "(r4 c0 c1 c2 c3 div 4096) div 64 = a"
    unfolding d5 using abc(3,4) by (rule divmod64)+
  have d8: "r4 c0 c1 c2 c3 div 262144 = a"
    using d7 by (simp only: div262144)
  have "encodeRune (r4 c0 c1 c2 c3)
      = [char_of (240 + a), char_of (128 + b), char_of (128 + c), char_of (128 + d)]"
    using assms(6,7) by (simp add: encodeRune_4 d1 d3 d6 d8)
  then show ?thesis
    by (simp add: a_def b_def c_def d_def)
qed

lemma nextRune_cases [consumes 1, case_names ascii invalid two three four]:
  assumes "s \<noteq> []"
  obtains
    c0 t where "s = c0 # t" "bval c0 < 0x80" "nextRune s = (bval c0, 1)"
  | "nextRune s = (RuneError, 1)"
  | c0 c1 t where "s = c0 # c1 # t" "nextRune s = (r2 c0 c1, 2)" "0x7F < r2 c0 c1"
      "r2 c0 c1 \<le> 0x7FF" "encodeRune (r2 c0 c1) = [c0, c1]"
  | c0 c1 c2 t where "s = c0 # c1 # c2 # t" "nextRune s = (r3 c0 c1 c2, 3)" "0x7FF < r3 c0 c1 c2"
      "r3 c0 c1 c2 \<le> 0xFFFF" "\<not> (surrogateMin \<le> r3 c0 c1 c2 \<and> r3 c0 c1 c2 \<le> surrogateMax)"
      "encodeRune (r3 c0 c1 c2) = [c0, c1, c2]"
  | c0 c1 c2 c3 t where "s = c0 # c1 # c2 # c3 # t" "nextRune s = (r4 c0 c1 c2 c3, 4)"
      "0xFFFF < r4 c0 c1 c2 c3" "r4 c0 c1 c2 c3 \<le> MaxRune"
      "encodeRune (r4 c0 c1 c2 c3) = [c0, c1, c2, c3]"
proof -
  from assms obtain c0 s' where s: "s = c0 # s'"
    by (cases s) auto
  consider "bval c0 < 0x80" | "0x80 \<le> bval c0" "bval c0 < 0xC0 \<or> 0xF8 \<le> bval c0"
    | "0xC0 \<le> bval c0" "bval c0 < 0xE0" | "0xE0 \<le> bval c0" "bval c0 < 0xF0"
    | "0xF0 \<le> bval c0" "bval c0 < 0xF8"
    by linarith
  then show thesis
  proof cases
    case 1
    then show thesis using that(1) [of c0 s'] s by (simp add: nextRune_def)
  next
    case 2
    then have "nextRune s = (RuneError, 1)"
      using decoderune_classx [of c0 s'] by (simp add: nextRune_def s)
    then show thesis by (rule that(2))
  next
    case 3
    then have n: "nextRune s = decoderune s"
      by (simp add: nextRune_def s)
    show thesis
    proof (cases s')
      case Nil
      then have "nextRune s = (RuneError, 1)"
        using 3 n decoderune_short2 [of c0] by (simp add: s)
      then show thesis by (rule that(2))
    next
      case (Cons c1 t)
      show thesis
      proof (cases "contb c1 \<and> 0x7F < r2 c0 c1")
        case True
        then have "nextRune s = (r2 c0 c1, 2)"
          using 3 n decoderune_class2 [of c0 c1 t] by (simp add: s Cons)
        then show thesis
          using that(3) [of c0 c1 t] True r2_props [of c0 c1] 3 by (simp add: s Cons)
      next
        case False
        then have "nextRune s = (RuneError, 1)"
          using 3 n decoderune_class2 [of c0 c1 t] by (simp add: s Cons)
        then show thesis by (rule that(2))
      qed
    qed
  next
    case 4
    then have n: "nextRune s = decoderune s"
      by (simp add: nextRune_def s)
    show thesis
    proof (cases "length s' < 2")
      case True
      then have "nextRune s = (RuneError, 1)"
        using 4 n decoderune_short3 [of c0 s'] by (simp add: s)
      then show thesis by (rule that(2))
    next
      case False
      then obtain c1 c2 t where s': "s' = c1 # c2 # t"
        by (cases s'; cases "tl s'") auto
      show thesis
      proof (cases "contb c1 \<and> contb c2 \<and> 0x7FF < r3 c0 c1 c2
        \<and> \<not> (surrogateMin \<le> r3 c0 c1 c2 \<and> r3 c0 c1 c2 \<le> surrogateMax)")
        case True
        then have "nextRune s = (r3 c0 c1 c2, 3)"
          using 4 n decoderune_class3 [of c0 c1 c2 t] by (simp add: s s')
        then show thesis
          using that(4) [of c0 c1 c2 t] True r3_props [of c0 c1 c2] 4 by (simp add: s s')
      next
        case False
        then have "nextRune s = (RuneError, 1)"
          using 4 n decoderune_class3 [of c0 c1 c2 t] by (simp add: s s')
        then show thesis by (rule that(2))
      qed
    qed
  next
    case 5
    then have n: "nextRune s = decoderune s"
      by (simp add: nextRune_def s)
    show thesis
    proof (cases "length s' < 3")
      case True
      then have "nextRune s = (RuneError, 1)"
        using 5 n decoderune_short4 [of c0 s'] by (simp add: s)
      then show thesis by (rule that(2))
    next
      case False
      then obtain c1 c2 c3 t where s': "s' = c1 # c2 # c3 # t"
        by (cases s'; cases "tl s'"; cases "tl (tl s')") auto
      show thesis
      proof (cases "contb c1 \<and> contb c2 \<and> contb c3 \<and> 0xFFFF < r4 c0 c1 c2 c3
          \<and> r4 c0 c1 c2 c3 \<le> MaxRune")
        case True
        then have "nextRune s = (r4 c0 c1 c2 c3, 4)"
          using 5 n decoderune_class4 [of c0 c1 c2 c3 t] by (simp add: s s')
        then show thesis
          using that(5) [of c0 c1 c2 c3 t] True r4_props [of c0 c1 c2 c3] 5 by (simp add: s s')
      next
        case False
        then have "nextRune s = (RuneError, 1)"
          using 5 n decoderune_class4 [of c0 c1 c2 c3 t] by (simp add: s s')
        then show thesis by (rule that(2))
      qed
    qed
  qed
qed

lemma nextRune_props:
  assumes "s \<noteq> []" "nextRune s = (c, w)"
  shows "scalar c" and "0 < w" and "w \<le> length s"
    and "c \<noteq> RuneError \<Longrightarrow> RuneLen c = int w"
    and "c \<noteq> RuneError \<or> w \<noteq> 1 \<Longrightarrow> encodeRune c = take w s"
proof -
  have "scalar c \<and> 0 < w \<and> w \<le> length s \<and> (c \<noteq> RuneError \<longrightarrow> RuneLen c = int w)
      \<and> (c \<noteq> RuneError \<or> w \<noteq> 1 \<longrightarrow> encodeRune c = take w s)"
    using assms(1)
  proof (cases rule: nextRune_cases)
    case (ascii c0 t)
    with assms(2) have "c = bval c0" "w = 1" by simp_all
    with ascii bval_ge0 [of c0] show ?thesis
      by (simp add: scalar_def RuneLen_def encodeRune_1)
  next
    case invalid
    with assms show ?thesis by (cases s) (simp_all add: scalar_def)
  next
    case (two c0 c1 t)
    with assms(2) have "c = r2 c0 c1" "w = 2" by simp_all
    with two show ?thesis
      by (simp add: scalar_def RuneLen_def)
  next
    case (three c0 c1 c2 t)
    with assms(2) have "c = r3 c0 c1 c2" "w = 3" by simp_all
    with three show ?thesis
      by (simp add: scalar_def RuneLen_def)
  next
    case (four c0 c1 c2 c3 t)
    with assms(2) have "c = r4 c0 c1 c2 c3" "w = 4" by simp_all
    with four show ?thesis
      by (simp add: scalar_def RuneLen_def)
  qed
  then show "scalar c" and "0 < w" and "w \<le> length s"
    and "c \<noteq> RuneError \<Longrightarrow> RuneLen c = int w"
    and "c \<noteq> RuneError \<or> w \<noteq> 1 \<Longrightarrow> encodeRune c = take w s"
    by simp_all
qed

lemma horner3: "(a::int) * 4096 + b * 64 + c = (a * 64 + b) * 64 + c"
  by simp

lemma horner4: "(a::int) * 262144 + b * 4096 + c * 64 + d = ((a * 64 + b) * 64 + c) * 64 + d"
  by simp

lemma mod64_le: "(x::int) mod 64 \<le> 63"
  using pos_mod_bound [of 64 x] by linarith

lemma nextRune_encodeRune:
  assumes "scalar r"
  shows "nextRune (encodeRune r @ t) = (r, length (encodeRune r))"
proof -
  from assms have r: "0 \<le> r" "r \<le> MaxRune" "\<not> (surrogateMin \<le> r \<and> r \<le> surrogateMax)"
    by (simp_all add: scalar_def)
  consider "r \<le> 0x7F" | "0x80 \<le> r" "r \<le> 0x7FF" | "0x800 \<le> r" "r \<le> 0xFFFF" | "0x10000 \<le> r"
    by linarith
  then show ?thesis
  proof cases
    case 1
    with r(1) show ?thesis
      by (simp add: encodeRune_1 nextRune_def bval_char_of)
  next
    case 2
    define c0 where "c0 = char_of (192 + r div 64)"
    define c1 where "c1 = char_of (128 + r mod 64)"
    have e: "encodeRune r = [c0, c1]"
      using 2 by (simp add: encodeRune_2 c0_def c1_def)
    have b0: "bval c0 = 192 + r div 64"
      unfolding c0_def using 2 by (intro bval_char_of) simp_all
    have b1: "bval c1 = 128 + r mod 64"
      unfolding c1_def by (intro bval_char_of) simp_all
    have rr: "r2 c0 c1 = r"
      by (simp add: r2_def b0 b1)
    have "decoderune (c0 # c1 # t) = (r, 2)"
      using 2 by (simp add: decoderune_class2 b0 contb_def b1 rr mod64_le)
    then show ?thesis
      using 2 by (simp add: e nextRune_def b0)
  next
    case 3
    define c0 where "c0 = char_of (224 + r div 4096)"
    define c1 where "c1 = char_of (128 + (r div 64) mod 64)"
    define c2 where "c2 = char_of (128 + r mod 64)"
    have e: "encodeRune r = [c0, c1, c2]"
      using 3 r(3) by (simp add: encodeRune_3 c0_def c1_def c2_def)
    have b0: "bval c0 = 224 + r div 4096"
      unfolding c0_def using 3 by (intro bval_char_of) simp_all
    have b1: "bval c1 = 128 + (r div 64) mod 64"
      unfolding c1_def by (intro bval_char_of) simp_all
    have b2: "bval c2 = 128 + r mod 64"
      unfolding c2_def by (intro bval_char_of) simp_all
    define q where "q = r div 64"
    have "r3 c0 c1 c2 = (q div 64) * 4096 + (q mod 64) * 64 + r mod 64"
      by (simp add: r3_def b0 b1 b2 div4096 q_def)
    also have "\<dots> = ((q div 64) * 64 + q mod 64) * 64 + r mod 64"
      by (rule horner3)
    also have "\<dots> = q * 64 + r mod 64"
      by (simp only: div_mult_mod_eq)
    also have "\<dots> = r"
      unfolding q_def by (simp only: div_mult_mod_eq)
    finally have rr: "r3 c0 c1 c2 = r" .
    have "decoderune (c0 # c1 # c2 # t) = (r, 3)"
      using 3 r(3) by (simp add: decoderune_class3 b0 contb_def b1 b2 rr mod64_le)
    then show ?thesis
      using 3 by (simp add: e nextRune_def b0)
  next
    case 4
    define c0 where "c0 = char_of (240 + r div 262144)"
    define c1 where "c1 = char_of (128 + (r div 4096) mod 64)"
    define c2 where "c2 = char_of (128 + (r div 64) mod 64)"
    define c3 where "c3 = char_of (128 + r mod 64)"
    have e: "encodeRune r = [c0, c1, c2, c3]"
      using 4 r(2) by (simp add: encodeRune_4 c0_def c1_def c2_def c3_def)
    have b0: "bval c0 = 240 + r div 262144"
      unfolding c0_def using 4 r(2) by (intro bval_char_of) simp_all
    have b1: "bval c1 = 128 + (r div 4096) mod 64"
      unfolding c1_def by (intro bval_char_of) simp_all
    have b2: "bval c2 = 128 + (r div 64) mod 64"
      unfolding c2_def by (intro bval_char_of) simp_all
    have b3: "bval c3 = 128 + r mod 64"
      unfolding c3_def by (intro bval_char_of) simp_all
    define q where "q = r div 64"
    define q' where "q' = q div 64"
    have "r4 c0 c1 c2 c3 = (q' div 64) * 262144 + (q' mod 64) * 4096 + (q mod 64) * 64 + r mod 64"
      by (simp add: r4_def b0 b1 b2 b3 div4096 div262144 q_def q'_def)
    also have "\<dots> = (((q' div 64) * 64 + q' mod 64) * 64 + q mod 64) * 64 + r mod 64"
      by (rule horner4)
    also have "\<dots> = (q' * 64 + q mod 64) * 64 + r mod 64"
      by (simp only: div_mult_mod_eq)
    also have "\<dots> = q * 64 + r mod 64"
      unfolding q'_def by (simp only: div_mult_mod_eq)
    also have "\<dots> = r"
      unfolding q_def by (simp only: div_mult_mod_eq)
    finally have rr: "r4 c0 c1 c2 c3 = r" .
    have "decoderune (c0 # c1 # c2 # c3 # t) = (r, 4)"
      using 4 r(2) by (simp add: decoderune_class4 b0 contb_def b1 b2 b3 rr mod64_le)
    then show ?thesis
      using 4 r(2) by (simp add: e nextRune_def b0)
  qed
qed

lemma written_eq: "written r = (if 0 \<le> r then encodeRune r else [])"
  by (simp add: written_def encodeRune_1)

lemma mapRunes_Nil: "mapRunes f [] b = b"
  by (subst mapRunes.simps) simp

lemma mapRunes_step:
  assumes "s \<noteq> []"
  shows "mapRunes f s b
    = mapRunes f (drop (snd (nextRune s)) s) (b @ written (f (fst (nextRune s))))"
  using assms by (subst mapRunes.simps) (simp add: Let_def written_def)

lemma mapRunes_acc: "mapRunes f s b = b @ mapRunes f s []"
proof (induction "length s" arbitrary: s b rule: less_induct)
  case less
  show ?case
  proof (cases "s = []")
    case True
    then show ?thesis by (simp add: mapRunes_Nil)
  next
    case False
    define s' where "s' = drop (snd (nextRune s)) s"
    define e where "e = written (f (fst (nextRune s)))"
    have "length s' < length s"
      using False nextRune_width [of s] by (simp add: s'_def)
    then have "mapRunes f s' (b @ e) = (b @ e) @ mapRunes f s' []"
      and "mapRunes f s' e = e @ mapRunes f s' []"
      using less [of s' "b @ e"] less [of s' e] by simp_all
    then show ?thesis
      using mapRunes_step [OF False, of f b] mapRunes_step [OF False, of f "[]"]
      by (simp add: s'_def e_def)
  qed
qed

lemma mapRunes_unfold:
  assumes "s \<noteq> []" "nextRune s = (c, w)"
  shows "mapRunes f s [] = written (f c) @ mapRunes f (drop w s) []"
  using mapRunes_step [OF assms(1), of f "[]"] assms(2)
    mapRunes_acc [of f "drop w s" "written (f c)"]
  by simp

lemma mapScan_end: "length s \<le> i \<Longrightarrow> mapScan f s i = Some s"
  by (subst mapScan.simps) simp

lemma mapScan_step:
  assumes "i < length s" "nextRune (drop i s) = (c, w)"
  shows "mapScan f s i =
    (if f c = c \<and> c \<noteq> RuneError then mapScan f s (i + w)
     else
       (let width = (if c = RuneError then int (snd (DecodeRuneInString (drop i s)))
                     else RuneLen c) in
        if c = RuneError \<and> width \<noteq> 1 \<and> f c = c then mapScan f s (i + w)
        else if int i + width < 0 \<or> int (length s) < int i + width then None
        else Some (mapRunes f (drop (nat (int i + width)) s)
                     (take i s @ (if 0 \<le> f c then encodeRune (f c) else [])))))"
  by (subst mapScan.simps) (simp only: assms if_True prod.case)

lemma mapScan_eq:
  assumes "i \<le> length s"
  shows "mapScan f s i = Some (take i s @ mapRunes f (drop i s) [])"
  using assms
proof (induction "length s - i" arbitrary: i rule: less_induct)
  case less
  show ?case
  proof (cases "i < length s")
    case False
    with less.prems show ?thesis
      by (simp add: mapScan_end mapRunes_Nil)
  next
    case True
    then have ne: "drop i s \<noteq> []" by simp
    obtain c w where cw: "nextRune (drop i s) = (c, w)"
      by (cases "nextRune (drop i s)")
    note p = nextRune_props [OF ne cw]
    have w: "0 < w" "i + w \<le> length s"
      using p(2,3) True by simp_all
    have unf: "mapRunes f (drop i s) [] = written (f c) @ mapRunes f (drop (i + w) s) []"
      using mapRunes_unfold [OF ne cw, of f] by (simp add: add.commute)
    have IH: "mapScan f s (i + w) = Some (take (i + w) s @ mapRunes f (drop (i + w) s) [])"
      using less.hyps [of "i + w"] w True by simp
    have tk: "take (i + w) s = take i s @ take w (drop i s)"
      by (simp add: take_add)
    have dec: "snd (DecodeRuneInString (drop i s)) = w"
      using ne cw by (simp add: DecodeRuneInString_def)
    have width: "(if c = RuneError then int w else RuneLen c) = int w"
      using p(4) by simp
    have nb: "(int i + int w < 0 \<or> int (length s) < int i + int w) = False"
      using w by simp
    have nt: "nat (int i + int w) = i + w"
      by (simp add: nat_add_distrib)
    have st: "mapScan f s i =
      (if f c = c \<and> c \<noteq> RuneError then mapScan f s (i + w)
       else if c = RuneError \<and> int w \<noteq> 1 \<and> f c = c then mapScan f s (i + w)
       else Some (mapRunes f (drop (i + w) s)
                     (take i s @ (if 0 \<le> f c then encodeRune (f c) else []))))"
      using mapScan_step [OF True cw, of f]
      by (simp only: dec Let_def width nb nt if_False)
    show ?thesis
    proof (cases "f c = c \<and> (c \<noteq> RuneError \<or> w \<noteq> 1)")
      case True
      then have "encodeRune c = take w (drop i s)"
        using p(5) by blast
      moreover have "0 \<le> c"
        using p(1) by (simp add: scalar_def)
      ultimately have wr: "written (f c) = take w (drop i s)"
        using True by (simp add: written_eq)
      have a: "mapScan f s (i + w) = Some (take i s @ mapRunes f (drop i s) [])"
        unfolding IH tk unf wr by (simp only: append_assoc)
      have "mapScan f s i = mapScan f s (i + w)"
      proof (cases "c = RuneError")
        case False
        with True show ?thesis by (simp add: st)
      next
        case c: True
        with True have "int w \<noteq> 1" by simp
        with True c show ?thesis by (simp add: st)
      qed
      then show ?thesis using a by (rule trans)
    next
      case False
      have iw: "(int w \<noteq> 1) = (w \<noteq> 1)"
        by simp
      have "\<not> (f c = c \<and> c \<noteq> RuneError)" "\<not> (c = RuneError \<and> int w \<noteq> 1 \<and> f c = c)"
        using False unfolding iw by blast+
      then have "mapScan f s i
          = Some (mapRunes f (drop (i + w) s) (take i s @ (if 0 \<le> f c then encodeRune (f c) else [])))"
        by (simp only: st if_False)
      also have "\<dots> = Some (take i s @ written (f c) @ mapRunes f (drop (i + w) s) [])"
        using mapRunes_acc [of f "drop (i + w) s" "take i s @ written (f c)"]
        by (simp add: written_eq)
      finally show ?thesis by (simp only: unf)
    qed
  qed
qed

lemma Map_eq: "Map f s = Some (mapRunes f s [])"
  using mapScan_eq [of 0 s f] by (simp add: Map_def)

lemma asciiUpper_eq: "asciiUpper s b = b @ map upperByte s"
  by (induction s arbitrary: b) (simp_all add: upperByte_def)

lemma asciiScan_True:
  assumes "asciiScan s h = (True, h')"
  shows "(\<forall>c \<in> set s. bval c < RuneSelf)"
    and "h' = (h \<or> (\<exists>c \<in> set s. 0x61 \<le> bval c \<and> bval c \<le> 0x7A))"
  using assms by (induction s arbitrary: h) (auto split: if_splits)

lemma mapRunes_ascii:
  assumes "\<forall>c \<in> set s. bval c < RuneSelf"
  shows "mapRunes (unicode_ToUpper tbl) s [] = map upperByte s"
  using assms
proof (induction s)
  case Nil
  show ?case by (simp add: mapRunes_Nil)
next
  case (Cons c s)
  then have c: "bval c < RuneSelf" by simp
  then have n: "nextRune (c # s) = (bval c, 1)"
    by (simp add: nextRune_def)
  have "written (unicode_ToUpper tbl (bval c)) = [upperByte c]"
    using c bval_ge0 [of c]
    by (simp add: written_def unicode_ToUpper_def upperByte_def)
  then show ?case
    using mapRunes_unfold [OF _ n, of "unicode_ToUpper tbl"] Cons by simp
qed

lemma map_upperByte_id:
  assumes "\<not> (\<exists>c \<in> set s. 0x61 \<le> bval c \<and> bval c \<le> 0x7A)"
  shows "map upperByte s = s"
  using assms by (induction s) (auto simp add: upperByte_def)

lemma ToUpper_eq: "ToUpper tbl s = Some (mapRunes (unicode_ToUpper tbl) s [])"
proof (cases "asciiScan s False")
  case (Pair isASCII hasLower)
  show ?thesis
  proof (cases isASCII)
    case False
    with Pair show ?thesis by (simp add: ToUpper_def Map_eq)
  next
    case True
    from Pair True have "asciiScan s False = (True, hasLower)"
      by simp
    note a = asciiScan_True [OF this]
    have m: "mapRunes (unicode_ToUpper tbl) s [] = map upperByte s"
      using a(1) by (rule mapRunes_ascii)
    show ?thesis
    proof (cases hasLower)
      case True
      with Pair \<open>isASCII\<close> show ?thesis
        by (simp add: ToUpper_def m asciiUpper_eq)
    next
      case False
      with a(2) have "map upperByte s = s"
        by (intro map_upperByte_id) simp
      with Pair \<open>isASCII\<close> False show ?thesis
        by (simp add: ToUpper_def m)
    qed
  qed
qed

lemma unicode_ToUpper_idem:
  assumes "caseTable_closed tbl" "scalar c"
  shows "scalar (unicode_ToUpper tbl c)"
    and "unicode_ToUpper tbl (unicode_ToUpper tbl c) = unicode_ToUpper tbl c"
proof -
  show "scalar (unicode_ToUpper tbl c)"
  proof (cases "c \<le> MaxASCII")
    case True
    with assms(2) show ?thesis by (simp add: unicode_ToUpper_def scalar_def)
  next
    case False
    with assms show ?thesis by (simp add: unicode_ToUpper_def caseTable_closed_def)
  qed
  show "unicode_ToUpper tbl (unicode_ToUpper tbl c) = unicode_ToUpper tbl c"
  proof (cases "c \<le> MaxASCII")
    case True
    then show ?thesis by (simp add: unicode_ToUpper_def)
  next
    case False
    with assms have "unicode_ToUpper tbl (tbl c) = tbl c"
      by (simp add: caseTable_closed_def)
    with False show ?thesis by (simp add: unicode_ToUpper_def)
  qed
qed

lemma mapRunes_encodeRune:
  assumes "scalar r"
  shows "mapRunes f (encodeRune r @ t) [] = written (f r) @ mapRunes f t []"
proof -
  have ne: "encodeRune r @ t \<noteq> []"
    by (simp add: encodeRune_def encode3_def)
  show ?thesis
    using mapRunes_unfold [OF ne nextRune_encodeRune [OF assms, of t], of f] by simp
qed

lemma mapRunes_idem:
  assumes "caseTable_closed tbl"
  shows "mapRunes (unicode_ToUpper tbl) (mapRunes (unicode_ToUpper tbl) s []) []
    = mapRunes (unicode_ToUpper tbl) s []"
proof (induction "length s" arbitrary: s rule: less_induct)
  case less
  let ?U = "unicode_ToUpper tbl"
  show ?case
  proof (cases "s = []")
    case True
    then show ?thesis by (simp add: mapRunes_Nil)
  next
    case False
    obtain c w where cw: "nextRune s = (c, w)"
      by (cases "nextRune s")
    note p = nextRune_props [OF False cw]
    note u = unicode_ToUpper_idem [OF assms p(1)]
    have "length (drop w s) < length s"
      using False p(2) by simp
    then have IH: "mapRunes ?U (mapRunes ?U (drop w s) []) [] = mapRunes ?U (drop w s) []"
      by (rule less)
    have "0 \<le> ?U c"
      using u(1) by (simp add: scalar_def)
    then have wr: "written (?U c) = encodeRune (?U c)"
      by (simp add: written_eq)
    have unf: "mapRunes ?U s [] = encodeRune (?U c) @ mapRunes ?U (drop w s) []"
      using mapRunes_unfold [OF False cw, of ?U] by (simp only: wr)
    have "mapRunes ?U (encodeRune (?U c) @ mapRunes ?U (drop w s) []) []
        = written (?U (?U c)) @ mapRunes ?U (mapRunes ?U (drop w s) []) []"
      using u(1) by (rule mapRunes_encodeRune)
    also have "\<dots> = encodeRune (?U c) @ mapRunes ?U (drop w s) []"
      by (simp only: u(2) wr IH)
    finally show ?thesis
      by (simp only: unf)
  qed
qed

section \<open>Facts about the case table\<close>

lemma and_not_1:
  fixes x :: int
  shows "x AND NOT 1 = x - x mod 2"
proof -
  have "x AND - 2 = 2 * (x div 2)"
    by (subst and_int_rec) simp
  moreover have "NOT (1::int) = - 2"
    by (simp add: not_int_def)
  ultimately show ?thesis by (simp add: minus_mod_eq_mult_div [symmetric])
qed


lemma sortedRanges_tail: "sortedRanges (e # cs) \<Longrightarrow> sortedRanges cs"
  by (cases e; cases cs) auto

lemma sortedRanges_above:
  assumes "sortedRanges ((lo, hi, d) # cs)" and "(lo', hi', d') \<in> set cs"
  shows "hi < lo'"
  using assms
proof (induction cs arbitrary: lo hi d)
  case Nil
  then show ?case by simp
next
  case (Cons e cs)
  obtain lo1 hi1 d1 where e: "e = (lo1, hi1, d1)"
    by (cases e)
  from Cons.prems(1) have s: "hi < lo1" "sortedRanges ((lo1, hi1, d1) # cs)"
    by (simp_all add: e)
  show ?case
  proof (cases "(lo', hi', d') = e")
    case True
    with s e show ?thesis by simp
  next
    case False
    with Cons.prems(2) have "(lo', hi', d') \<in> set cs" by simp
    from Cons.IH [OF s(2) this] have "hi1 < lo'" .
    moreover have "lo1 \<le> hi1"
      using s(2) by (cases cs) auto
    ultimately show ?thesis using s(1) by simp
  qed
qed

lemma toUpperIn_below:
  assumes "\<And>lo hi d. (lo, hi, d) \<in> set cs \<Longrightarrow> y < lo"
  shows "toUpperIn cs y = y"
  using assms
proof (induction cs)
  case Nil
  show ?case by simp
next
  case (Cons e cs)
  obtain lo hi d where e: "e = (lo, hi, d)"
    by (cases e)
  have "y < lo"
    using Cons.prems [of lo hi d] by (simp add: e)
  moreover have "toUpperIn cs y = y"
  proof (rule Cons.IH)
    fix lo' hi' d'
    assume "(lo', hi', d') \<in> set cs"
    then show "y < lo'"
      using Cons.prems [of lo' hi' d'] by simp
  qed
  ultimately show ?case by (simp add: e)
qed

lemma toUpperIn_cases:
  "toUpperIn cs r = r \<or>
   (\<exists>lo hi d. (lo, hi, d) \<in> set cs \<and> lo \<le> r \<and> r \<le> hi
      \<and> toUpperIn cs r = (if MaxRune < d then lo + ((r - lo) AND NOT 1) else r + d))"
proof (induction cs)
  case Nil
  show ?case by simp
next
  case (Cons e cs)
  obtain lo hi d where e: "e = (lo, hi, d)"
    by (cases e)
  show ?case
  proof (cases "lo \<le> r \<and> r \<le> hi")
    case True
    then have "(lo, hi, d) \<in> set (e # cs) \<and> lo \<le> r \<and> r \<le> hi
      \<and> toUpperIn (e # cs) r = (if MaxRune < d then lo + ((r - lo) AND NOT 1) else r + d)"
      by (simp add: e)
    then show ?thesis by blast
  next
    case False
    then have t: "toUpperIn (e # cs) r = toUpperIn cs r"
      by (auto simp add: e)
    from Cons.IH show ?thesis
    proof
      assume "toUpperIn cs r = r"
      with t show ?thesis by simp
    next
      assume "\<exists>lo hi d. (lo, hi, d) \<in> set cs \<and> lo \<le> r \<and> r \<le> hi
        \<and> toUpperIn cs r = (if MaxRune < d then lo + ((r - lo) AND NOT 1) else r + d)"
      then obtain lo' hi' d' where "(lo', hi', d') \<in> set cs" "lo' \<le> r" "r \<le> hi'"
        "toUpperIn cs r = (if MaxRune < d' then lo' + ((r - lo') AND NOT 1) else r + d')"
        by blast
      with t have "(lo', hi', d') \<in> set (e # cs) \<and> lo' \<le> r \<and> r \<le> hi'
        \<and> toUpperIn (e # cs) r = (if MaxRune < d' then lo' + ((r - lo') AND NOT 1) else r + d')"
        by simp
      then show ?thesis by blast
    qed
  qed
qed

lemma upperLower_even:
  fixes e lo :: int
  assumes "lo \<le> e" "even (e - lo)"
  shows "lo + ((e - lo) AND NOT 1) = e"
proof -
  have "(e - lo) mod 2 = 0"
    using assms(2) by presburger
  then show ?thesis unfolding and_not_1 by simp
qed

lemma fixedInterval_sound:
  assumes "sortedRanges cs" "fixedInterval cs a b" "a \<le> y" "y \<le> b"
  shows "toUpperIn cs y = y"
  using assms(1,2)
proof (induction cs)
  case Nil
  show ?case by simp
next
  case (Cons e cs)
  obtain lo hi d where e: "e = (lo, hi, d)"
    by (cases e)
  have st: "sortedRanges cs"
    using Cons.prems(1) by (rule sortedRanges_tail)
  consider "hi < a" | "\<not> hi < a" "b < lo" | "\<not> hi < a" "\<not> b < lo"
    by blast
  then show ?case
  proof cases
    case 1
    with Cons.prems(2) have "fixedInterval cs a b" by (simp add: e)
    with st have "toUpperIn cs y = y" by (rule Cons.IH)
    with 1 assms(3) show ?thesis by (simp add: e)
  next
    case 2
    have "toUpperIn cs y = y"
    proof (rule toUpperIn_below)
      fix lo' hi' d'
      assume "(lo', hi', d') \<in> set cs"
      with Cons.prems(1) have "hi < lo'"
        unfolding e by (rule sortedRanges_above)
      moreover have "lo \<le> hi"
        using Cons.prems(1) by (cases cs) (auto simp add: e)
      ultimately show "y < lo'" using 2 assms(4) by simp
    qed
    with 2 assms(4) show ?thesis by (simp add: e)
  next
    case 3
    with Cons.prems(2) have u: "MaxRune < d" "a = b" "even (a - lo)" and f: "fixedInterval cs a b"
      by (auto simp add: e)
    from st f have "toUpperIn cs y = y" by (rule Cons.IH)
    moreover have "y = a" using u(2) assms(3,4) by simp
    ultimately show ?thesis
      using u upperLower_even [of lo y] by (simp add: e)
  qed
qed

lemma fixedEven_sound:
  assumes "sortedRanges cs" "fixedEven cs lo hi" "lo \<le> y" "y \<le> hi" "even (y - lo)"
  shows "toUpperIn cs y = y"
  using assms(1,2)
proof (induction cs)
  case Nil
  show ?case by simp
next
  case (Cons e cs)
  obtain lo' hi' d' where e: "e = (lo', hi', d')"
    by (cases e)
  have st: "sortedRanges cs"
    using Cons.prems(1) by (rule sortedRanges_tail)
  consider "hi' < lo" | "\<not> hi' < lo" "hi < lo'" | "\<not> hi' < lo" "\<not> hi < lo'"
    by blast
  then show ?case
  proof cases
    case 1
    with Cons.prems(2) have "fixedEven cs lo hi" by (simp add: e)
    with st have "toUpperIn cs y = y" by (rule Cons.IH)
    with 1 assms(3) show ?thesis by (simp add: e)
  next
    case 2
    have "toUpperIn cs y = y"
    proof (rule toUpperIn_below)
      fix lo1 hi1 d1
      assume "(lo1, hi1, d1) \<in> set cs"
      with Cons.prems(1) have "hi' < lo1"
        unfolding e by (rule sortedRanges_above)
      moreover have "lo' \<le> hi'"
        using Cons.prems(1) by (cases cs) (auto simp add: e)
      ultimately show "y < lo1" using 2 assms(4) by simp
    qed
    with 2 assms(4) show ?thesis by (simp add: e)
  next
    case 3
    with Cons.prems(2) have u: "MaxRune < d'" "even (lo - lo')" and f: "fixedEven cs lo hi"
      by (auto simp add: e)
    from st f have r: "toUpperIn cs y = y" by (rule Cons.IH)
    have "even (y - lo')"
    proof -
      have "y - lo' = (y - lo) + (lo - lo')" by simp
      then show ?thesis using assms(5) u(2) by (simp only: even_add)
    qed
    then have "lo' \<le> y \<Longrightarrow> lo' + ((y - lo') AND NOT 1) = y"
      by (rule upperLower_even [rotated])
    with r u show ?thesis by (simp add: e)
  qed
qed

lemma checkRanges_closed:
  assumes "checkRanges cs"
  shows "caseTable_closed (toUpperIn cs)"
  unfolding caseTable_closed_def
proof (intro allI impI)
  fix c
  assume c: "MaxASCII < c \<and> scalar c"
  from assms have st: "sortedRanges cs" and ok: "\<And>e. e \<in> set cs \<Longrightarrow> entryOK cs e"
    by (simp_all add: checkRanges_def list_all_iff)
  let ?T = "toUpperIn cs"
  from toUpperIn_cases [of cs c] consider "?T c = c"
    | lo hi d where "(lo, hi, d) \<in> set cs" "lo \<le> c" "c \<le> hi"
        "?T c = (if MaxRune < d then lo + ((c - lo) AND NOT 1) else c + d)"
    by blast
  then show "scalar (?T c) \<and> unicode_ToUpper ?T (?T c) = ?T c"
  proof cases
    case 1
    with c show ?thesis by (simp add: unicode_ToUpper_def)
  next
    case (2 lo hi d)
    note e = ok [OF 2(1)]
    show ?thesis
    proof (cases "MaxRune < d")
      case True
      with e have u: "MaxASCII < lo" "hi \<le> MaxRune" "hi < surrogateMin \<or> surrogateMax < lo"
        "fixedEven cs lo hi"
        by (simp_all add: entryOK_def)
      define y where "y = lo + ((c - lo) AND NOT 1)"
      have y: "y = c - (c - lo) mod 2"
        unfolding y_def and_not_1 by simp
      have m: "0 \<le> (c - lo) mod 2" "(c - lo) mod 2 \<le> c - lo"
        using 2(2) by (simp_all add: zmod_le_nonneg_dividend)
      have r: "lo \<le> y" "y \<le> hi"
        using m 2(3) by (simp_all add: y)
      have ev: "even (y - lo)"
      proof -
        have "y - lo = (c - lo) - (c - lo) mod 2" by (simp add: y)
        then show ?thesis by (simp add: minus_mod_eq_mult_div)
      qed
      have "?T y = y"
        using st u(4) r ev by (rule fixedEven_sound)
      moreover have "scalar y"
        using r u(1,2,3) by (auto simp add: scalar_def)
      moreover have "MaxASCII < y"
        using r(1) u(1) by simp
      ultimately show ?thesis
        using 2(4) True by (simp add: unicode_ToUpper_def y_def)
    next
      case False
      with e have u: "0 \<le> lo + d" "hi + d \<le> MaxRune"
        "hi + d < surrogateMin \<or> surrogateMax < lo + d"
        "hi + d < 0x61 \<or> 0x7A < lo + d" "fixedInterval cs (lo + d) (hi + d)"
        by (simp_all add: entryOK_def)
      define y where "y = c + d"
      have r: "lo + d \<le> y" "y \<le> hi + d"
        using 2(2,3) by (simp_all add: y_def)
      have "?T y = y"
        using st u(5) r by (rule fixedInterval_sound)
      moreover have "scalar y"
        using r u(1,2,3) by (auto simp add: scalar_def)
      moreover have "\<not> (0x61 \<le> y \<and> y \<le> 0x7A)"
        using r u(4) by auto
      ultimately show ?thesis
        using 2(4) False by (simp add: unicode_ToUpper_def y_def)
    qed
  qed
qed

lemma sortedRanges_nth_le:
  assumes "sortedRanges cs" "i < length cs" "cs ! i = (a, b, d)"
  shows "a \<le> b"
  using assms
proof (induction cs arbitrary: i)
  case Nil
  then show ?case by simp
next
  case (Cons e cs)
  show ?case
  proof (cases i)
    case 0
    with Cons.prems(3) have "e = (a, b, d)" by simp
    with Cons.prems(1) show ?thesis by (cases cs) auto
  next
    case (Suc k)
    with Cons.prems have "sortedRanges cs" "k < length cs" "cs ! k = (a, b, d)"
      by (simp_all add: sortedRanges_tail [of e cs])
    then show ?thesis by (rule Cons.IH)
  qed
qed

lemma sortedRanges_nth_less:
  assumes "sortedRanges cs" "i < j" "j < length cs" "cs ! i = (a, b, d)" "cs ! j = (a', b', d')"
  shows "b < a'"
  using assms
proof (induction cs arbitrary: i j)
  case Nil
  then show ?case by simp
next
  case (Cons e cs)
  from Cons.prems(2) obtain j' where j: "j = Suc j'"
    by (cases j) simp_all
  with Cons.prems(3,5) have j': "j' < length cs" "cs ! j' = (a', b', d')"
    by simp_all
  show ?case
  proof (cases i)
    case 0
    with Cons.prems(4) have "e = (a, b, d)" by simp
    moreover have "(a', b', d') \<in> set cs"
      using j' by (metis nth_mem)
    ultimately show ?thesis
      using Cons.prems(1) sortedRanges_above [of a b d cs a' b' d'] by simp
  next
    case (Suc k)
    with Cons.prems(2,4) j have "k < j'" "cs ! k = (a, b, d)"
      by simp_all
    with sortedRanges_tail [OF Cons.prems(1)] j' show ?thesis
      using Cons.IH [of k j'] by simp
  qed
qed

lemma toUpperIn_miss:
  assumes "\<And>a b d. (a, b, d) \<in> set cs \<Longrightarrow> r < a \<or> b < r"
  shows "toUpperIn cs r = r"
  using assms
proof (induction cs)
  case Nil
  show ?case by simp
next
  case (Cons e cs)
  obtain a b d where e: "e = (a, b, d)"
    by (cases e)
  have "r < a \<or> b < r"
    using Cons.prems [of a b d] by (simp add: e)
  moreover have "toUpperIn cs r = r"
  proof (rule Cons.IH)
    fix a' b' d'
    assume "(a', b', d') \<in> set cs"
    then show "r < a' \<or> b' < r"
      using Cons.prems [of a' b' d'] by simp
  qed
  ultimately show ?case by (auto simp add: e)
qed

lemma toUpperIn_hit:
  assumes "sortedRanges cs" "m < length cs" "cs ! m = (a, b, d)" "a \<le> r" "r \<le> b"
  shows "toUpperIn cs r = (if MaxRune < d then a + ((r - a) AND NOT 1) else r + d)"
  using assms(1,2,3)
proof (induction cs arbitrary: m)
  case Nil
  then show ?case by simp
next
  case (Cons e cs)
  show ?case
  proof (cases m)
    case 0
    with Cons.prems(3) have "e = (a, b, d)" by simp
    with assms(4,5) show ?thesis by simp
  next
    case (Suc k)
    with Cons.prems(2,3) have k: "k < length cs" "cs ! k = (a, b, d)"
      by simp_all
    obtain a0 b0 d0 where e: "e = (a0, b0, d0)"
      by (cases e)
    have "(a, b, d) \<in> set cs"
      using k by (metis nth_mem)
    with Cons.prems(1) have "b0 < a"
      unfolding e by (rule sortedRanges_above)
    with assms(4) have "toUpperIn (e # cs) r = toUpperIn cs r"
      by (simp add: e)
    also have "\<dots> = (if MaxRune < d then a + ((r - a) AND NOT 1) else r + d)"
      using sortedRanges_tail [OF Cons.prems(1)] k by (rule Cons.IH)
    finally show ?thesis .
  qed
qed

lemma to_search_eq:
  assumes "sortedRanges cs"
  shows "hi \<le> length cs \<Longrightarrow> \<forall>j<lo. fst (snd (cs ! j)) < r
    \<Longrightarrow> \<forall>j. hi \<le> j \<and> j < length cs \<longrightarrow> r < fst (cs ! j)
    \<Longrightarrow> to_search cs r lo hi = toUpperIn cs r"
proof (induction "hi - lo" arbitrary: lo hi rule: less_induct)
  case less
  note below = less.prems(2) and above = less.prems(3)
  show ?case
  proof (cases "lo < hi")
    case False
    have "toUpperIn cs r = r"
    proof (rule toUpperIn_miss)
      fix a b d
      assume "(a, b, d) \<in> set cs"
      then obtain j where j: "j < length cs" "cs ! j = (a, b, d)"
        by (auto simp add: in_set_conv_nth)
      show "r < a \<or> b < r"
      proof (cases "j < lo")
        case True
        with below j(2) show ?thesis by auto
      next
        case nl: False
        with False have "hi \<le> j" by simp
        with above j show ?thesis by auto
      qed
    qed
    moreover from False have "to_search cs r lo hi = r"
      by (subst to_search.simps) simp
    ultimately show ?thesis by simp
  next
    case True
    define m where "m = (lo + hi) div 2"
    have m: "lo \<le> m" "m < hi"
      using True by (simp_all add: m_def)
    with less.prems(1) have ml: "m < length cs"
      by simp
    obtain a b d where e: "cs ! m = (a, b, d)"
      by (cases "cs ! m")
    have ab: "a \<le> b"
      using assms ml e by (rule sortedRanges_nth_le)
    have unf: "to_search cs r lo hi =
      (if a \<le> r \<and> r \<le> b then (if MaxRune < d then a + ((r - a) AND NOT 1) else r + d)
       else if r < a then to_search cs r lo m else to_search cs r (m + 1) hi)"
      using True e unfolding m_def by (subst to_search.simps) simp
    consider "a \<le> r \<and> r \<le> b" | "r < a" | "b < r"
      by linarith
    then show ?thesis
    proof cases
      case 1
      then have "toUpperIn cs r = (if MaxRune < d then a + ((r - a) AND NOT 1) else r + d)"
        using toUpperIn_hit [OF assms ml e, of r] by simp
      with 1 unf show ?thesis by simp
    next
      case 2
      have "to_search cs r lo m = toUpperIn cs r"
      proof (rule less.hyps)
        show "m - lo < hi - lo"
          using m by simp
        show "m \<le> length cs"
          using ml by simp
        show "\<forall>j<lo. fst (snd (cs ! j)) < r"
          by (rule below)
        show "\<forall>j. m \<le> j \<and> j < length cs \<longrightarrow> r < fst (cs ! j)"
        proof (intro allI impI)
          fix j
          assume j: "m \<le> j \<and> j < length cs"
          obtain a' b' d' where e': "cs ! j = (a', b', d')"
            by (cases "cs ! j")
          have "a \<le> a'"
          proof (cases "j = m")
            case True
            with e e' show ?thesis by simp
          next
            case False
            with j have "m < j" by simp
            from assms this _ e e' have "b < a'"
              by (rule sortedRanges_nth_less) (use j in simp)
            with ab show ?thesis by simp
          qed
          with 2 show "r < fst (cs ! j)"
            by (simp add: e')
        qed
      qed
      with 2 unf show ?thesis by simp
    next
      case 3
      have "to_search cs r (m + 1) hi = toUpperIn cs r"
      proof (rule less.hyps)
        show "hi - (m + 1) < hi - lo"
          using m by simp
        show "hi \<le> length cs"
          by (rule less.prems(1))
        show "\<forall>j. hi \<le> j \<and> j < length cs \<longrightarrow> r < fst (cs ! j)"
          by (rule above)
        show "\<forall>j<m + 1. fst (snd (cs ! j)) < r"
        proof (intro allI impI)
          fix j
          assume j: "j < m + 1"
          obtain a' b' d' where e': "cs ! j = (a', b', d')"
            by (cases "cs ! j")
          have "b' \<le> b"
          proof (cases "j = m")
            case True
            with e e' show ?thesis by simp
          next
            case False
            with j have jm: "j < m" by simp
            from assms jm ml e' e have "b' < a"
              by (rule sortedRanges_nth_less)
            with ab show ?thesis by simp
          qed
          with 3 show "fst (snd (cs ! j)) < r"
            by (simp add: e')
        qed
      qed
      with 3 ab unf show ?thesis by simp
    qed
  qed
qed

lemma to_search_toUpperIn:
  assumes "sortedRanges cs"
  shows "to_search cs r 0 (length cs) = toUpperIn cs r"
  using assms by (rule to_search_eq) simp_all

lemma CaseRanges_sorted: "sortedRanges CaseRanges"
  by code_simp

lemma CaseRanges_entries_1: "list_all (entryOK CaseRanges) (take 60 CaseRanges)"
  by code_simp

lemma CaseRanges_entries_2: "list_all (entryOK CaseRanges) (take 50 (drop 60 CaseRanges))"
  by code_simp

lemma CaseRanges_entries_3: "list_all (entryOK CaseRanges) (take 50 (drop 110 CaseRanges))"
  by code_simp

lemma CaseRanges_entries_4: "list_all (entryOK CaseRanges) (drop 160 CaseRanges)"
  by code_simp

lemma CaseRanges_checked: "checkRanges CaseRanges"
proof -
  have "CaseRanges = take 60 CaseRanges @ take 50 (drop 60 CaseRanges)
      @ take 50 (drop 110 CaseRanges) @ drop 160 CaseRanges"
    using append_take_drop_id [of 60 CaseRanges] append_take_drop_id [of 50 "drop 60 CaseRanges"]
      append_take_drop_id [of 50 "drop 110 CaseRanges"]
    by (simp only: drop_drop) simp
  then have "list_all (entryOK CaseRanges) CaseRanges
    = list_all (entryOK CaseRanges) (take 60 CaseRanges @ take 50 (drop 60 CaseRanges)
      @ take 50 (drop 110 CaseRanges) @ drop 160 CaseRanges)"
    by simp
  also have "\<dots>"
    using CaseRanges_entries_1 CaseRanges_entries_2 CaseRanges_entries_3 CaseRanges_entries_4
    by (simp only: list_all_append simp_thms)
  finally show ?thesis
    using CaseRanges_sorted by (simp add: checkRanges_def)
qed

lemma To_UpperCase_eq: "To_UpperCase = toUpperIn CaseRanges"
proof (rule ext)
  fix r
  have "sortedRanges CaseRanges"
    using CaseRanges_checked by (simp add: checkRanges_def)
  then show "To_UpperCase r = toUpperIn CaseRanges r"
    unfolding To_UpperCase_def by (rule to_search_toUpperIn)
qed

lemma To_UpperCase_closed: "caseTable_closed To_UpperCase"
  unfolding To_UpperCase_eq using CaseRanges_checked by (rule checkRanges_closed)

lemma subtable_closed:
  assumes "caseTable_closed T" and "\<forall>c. tbl c = c \<or> tbl c = T c"
  shows "caseTable_closed tbl"
  unfolding caseTable_closed_def
proof (intro allI impI)
  fix c
  assume c: "MaxASCII < c \<and> scalar c"
  with assms(1) have T: "scalar (T c)" "unicode_ToUpper T (T c) = T c"
    by (simp_all add: caseTable_closed_def)
  from assms(2) have "tbl c = c \<or> tbl c = T c" by simp
  then show "scalar (tbl c) \<and> unicode_ToUpper tbl (tbl c) = tbl c"
  proof
    assume "tbl c = c"
    with c show ?thesis by (simp add: unicode_ToUpper_def)
  next
    assume t: "tbl c = T c"
    show ?thesis
    proof (cases "T c \<le> MaxASCII")
      case True
      with T show ?thesis by (simp add: t unicode_ToUpper_def)
    next
      case False
      with T(2) have "T (T c) = T c" by (simp add: unicode_ToUpper_def)
      moreover from assms(2) have "tbl (T c) = T c \<or> tbl (T c) = T (T c)" by simp
      ultimately have "tbl (T c) = T c" by auto
      with False T(1) show ?thesis by (simp add: t unicode_ToUpper_def)
    qed
  qed
qed

section \<open>Facts about the loop\<close>

lemma process_eq: "process tbl w = Some (upper tbl w)"
  by (simp add: process_def ToUpper_eq upper_def)

lemma loadStrings_length: "loadStrings m s = Some S \<Longrightarrow> length S = len s"
  by (auto simp add: loadStrings_def split: if_splits pointer.splits)

lemma loadString_nth:
  assumes "loadStrings m s = Some S" "i < len s"
  shows "loadString m s i = Some (S ! i)"
  using assms
  by (auto simp add: loadStrings_def loadString_def split: if_splits pointer.splits)

lemma loadWords_valid:
  assumes "validWords m s"
  shows "\<exists>xs. loadWords m s = Some xs \<and> length xs = len s"
  using assms
  by (auto simp add: loadWords_def validWords_def split: pointer.splits)

lemma take_Suc_update:
  assumes "off + n < length arr"
  shows "take (Suc n) (drop off (arr[off + n := x])) = take n (drop off arr) @ [x]"
proof -
  have "n < length (drop off (arr[off + n := x]))"
    using assms by simp
  then have "take (Suc n) (drop off (arr[off + n := x]))
      = take n (drop off (arr[off + n := x])) @ [drop off (arr[off + n := x]) ! n]"
    by (rule take_Suc_conv_app_nth)
  moreover have "drop off (arr[off + n := x]) ! n = x"
    using assms by simp
  moreover have "take n (drop off (arr[off + n := x])) = take n (drop off arr)"
    by (simp add: drop_update_swap)
  ultimately show ?thesis by simp
qed

lemma append_Word_inplace:
  assumes v: "validWords m ws" and f: "fresh n0 ws" and room: "len ws < cap ws"
    and xs: "loadWords m ws = Some xs"
  shows "\<exists>m'. append_Word g ws x m = Some (ws\<lparr>len := len ws + 1\<rparr>, m')
      \<and> validWords m' (ws\<lparr>len := len ws + 1\<rparr>)
      \<and> loadWords m' (ws\<lparr>len := len ws + 1\<rparr>) = Some (xs @ [x])
      \<and> stringArrays m' = stringArrays m
      \<and> take n0 (wordArrays m') = take n0 (wordArrays m)
      \<and> length (wordArrays m') = length (wordArrays m)
      \<and> mallocs m' = mallocs m"
proof -
  from v room obtain a off where p: "array ws = Elem a off"
    and a: "a < length (wordArrays m)" and c: "off + cap ws \<le> length (wordArrays m ! a)"
    by (cases "array ws") (auto simp add: validWords_def)
  from f p have n0: "n0 \<le> a"
    by (simp add: fresh_def)
  define arr where "arr = wordArrays m ! a"
  define m' where "m' = m\<lparr>wordArrays := (wordArrays m)[a := arr[off + len ws := x]]\<rparr>"
  have lt: "off + len ws < length arr"
    using room c by (simp add: arr_def)
  have st: "storeWord m (ws\<lparr>len := len ws + 1\<rparr>) (len ws) x = Some m'"
    using p a lt by (simp add: storeWord_def m'_def arr_def)
  have ap: "append_Word g ws x m = Some (ws\<lparr>len := len ws + 1\<rparr>, m')"
    using room st by (simp add: append_Word_def Let_def)
  have xs': "xs = take (len ws) (drop off arr)"
    using xs p a lt by (auto simp add: loadWords_def arr_def split: if_splits)
  have "loadWords m' (ws\<lparr>len := len ws + 1\<rparr>) = Some (xs @ [x])"
    using p a lt take_Suc_update [OF lt, of x]
    by (simp add: loadWords_def m'_def xs')
  moreover have "validWords m' (ws\<lparr>len := len ws + 1\<rparr>)"
    using p a c room by (simp add: validWords_def m'_def arr_def)
  moreover have "take n0 (wordArrays m') = take n0 (wordArrays m)"
    using n0 by (simp add: m'_def)
  ultimately show ?thesis
    using ap by (simp add: m'_def)
qed

lemma append_Word_grow:
  assumes v: "validWords m ws" and full: "\<not> len ws < cap ws"
    and xs: "loadWords m ws = Some xs" and n0: "n0 \<le> length (wordArrays m)"
  shows "\<exists>ws' m'. append_Word g ws x m = Some (ws', m')
      \<and> validWords m' ws' \<and> fresh n0 ws'
      \<and> len ws' = len ws + 1
      \<and> cap ws' = max (len ws + 1) (g (len ws + 1) (cap ws))
      \<and> loadWords m' ws' = Some (xs @ [x])
      \<and> stringArrays m' = stringArrays m
      \<and> take n0 (wordArrays m') = take n0 (wordArrays m)
      \<and> length (wordArrays m') = length (wordArrays m) + 1
      \<and> mallocs m' = mallocs m + 1"
proof -
  define newcap where "newcap = max (len ws + 1) (g (len ws + 1) (cap ws))"
  define arr where "arr = (xs @ replicate (newcap - len ws) zeroWord)[len ws := x]"
  define ws' where "ws' = \<lparr>array = Elem (length (wordArrays m)) 0, len = len ws + 1, cap = newcap\<rparr>"
  define m1 where "m1 = m\<lparr>wordArrays := wordArrays m @ [xs @ replicate (newcap - len ws) zeroWord],
              mallocs := mallocs m + 1\<rparr>"
  define m' where "m' = m1\<lparr>wordArrays := (wordArrays m1)[length (wordArrays m) := arr]\<rparr>"
  have lx: "length xs = len ws"
    using loadWords_valid [OF v] xs by auto
  have nc: "len ws < newcap"
    by (simp add: newcap_def)
  have gr: "growslice g ws (len ws + 1) m = Some (ws', m1)"
    using xs by (simp add: growslice_def Let_def ws'_def m1_def newcap_def)
  have st: "storeWord m1 ws' (len ws) x = Some m'"
    using nc lx by (simp add: storeWord_def ws'_def m1_def m'_def arr_def nth_append)
  have ap: "append_Word g ws x m = Some (ws', m')"
    using full gr st by (simp add: append_Word_def Let_def)
  have a: "arr = xs @ [x] @ replicate (newcap - len ws - 1) zeroWord"
  proof -
    have "replicate (newcap - len ws) zeroWord = zeroWord # replicate (newcap - len ws - 1) zeroWord"
      using nc by (cases "newcap - len ws") simp_all
    then show ?thesis
      using lx by (simp add: arr_def list_update_append)
  qed
  have wa: "wordArrays m' = wordArrays m @ [arr]"
    by (simp add: m'_def m1_def)
  have "loadWords m' ws' = Some (xs @ [x])"
    using lx nc by (simp add: loadWords_def ws'_def wa a)
  moreover have "validWords m' ws'"
    using nc lx by (simp add: validWords_def ws'_def wa a)
  moreover have "fresh n0 ws'"
    using n0 by (simp add: fresh_def ws'_def)
  moreover have "take n0 (wordArrays m') = take n0 (wordArrays m)"
    using n0 by (simp add: wa)
  ultimately show ?thesis
    using ap by (simp add: ws'_def wa m'_def m1_def newcap_def)
qed

lemma append_Word_correct:
  assumes v: "validWords m ws" and f: "fresh n0 ws" and xs: "loadWords m ws = Some xs"
    and n0: "n0 \<le> length (wordArrays m)"
  shows "\<exists>ws' m'. append_Word g ws x m = Some (ws', m')
      \<and> advanced n0 m m' ws'
      \<and> len ws' = len ws + 1
      \<and> loadWords m' ws' = Some (xs @ [x])
      \<and> (len ws < cap ws \<longrightarrow> mallocs m' = mallocs m \<and> array ws' = array ws \<and> cap ws' = cap ws)
      \<and> (\<not> len ws < cap ws \<longrightarrow> mallocs m' = mallocs m + 1
            \<and> cap ws' = max (len ws + 1) (g (len ws + 1) (cap ws)))"
proof (cases "len ws < cap ws")
  case True
  from append_Word_inplace [OF v f True xs, of g x] obtain m' where
    "append_Word g ws x m = Some (ws\<lparr>len := len ws + 1\<rparr>, m')"
    "validWords m' (ws\<lparr>len := len ws + 1\<rparr>)"
    "loadWords m' (ws\<lparr>len := len ws + 1\<rparr>) = Some (xs @ [x])"
    "stringArrays m' = stringArrays m"
    "take n0 (wordArrays m') = take n0 (wordArrays m)"
    "length (wordArrays m') = length (wordArrays m)"
    "mallocs m' = mallocs m"
    by blast
  with True f show ?thesis
    by (simp add: advanced_def fresh_def)
next
  case False
  from append_Word_grow [OF v False xs n0, of g x] obtain ws' m' where
    "append_Word g ws x m = Some (ws', m')"
    "validWords m' ws'" "fresh n0 ws'"
    "len ws' = len ws + 1"
    "cap ws' = max (len ws + 1) (g (len ws + 1) (cap ws))"
    "loadWords m' ws' = Some (xs @ [x])"
    "stringArrays m' = stringArrays m"
    "take n0 (wordArrays m') = take n0 (wordArrays m)"
    "length (wordArrays m') = length (wordArrays m) + 1"
    "mallocs m' = mallocs m + 1"
    by blast
  with False show ?thesis
    by (simp add: advanced_def)
qed

lemma advanced_trans:
  assumes "advanced n0 m m1 ws1" "advanced n0 m1 m2 ws2"
  shows "advanced n0 m m2 ws2"
  using assms by (auto simp add: advanced_def)

lemma loadStrings_frame:
  "stringArrays m' = stringArrays m \<Longrightarrow> loadStrings m' s = loadStrings m s"
  by (cases "array s") (simp_all add: loadStrings_def)

lemma rangeLoop_step:
  assumes "i < len raw" "loadString m raw i = Some w" "process tbl w = Some u"
    "append_Word g ws \<lparr>word = u, index = int i\<rparr> m = Some (ws1, m1)"
  shows "rangeLoop tbl g raw i ws m = rangeLoop tbl g raw (i + 1) ws1 m1"
  using assms by (subst rangeLoop.simps) simp

lemma rangeLoop_end: "\<not> i < len raw \<Longrightarrow> rangeLoop tbl g raw i ws m = Some (ws, m)"
  by (subst rangeLoop.simps) simp

lemma rangeLoop_correct:
  assumes "loadStrings m raw = Some S" "validWords m ws" "fresh n0 ws"
    "loadWords m ws = Some xs" "n0 \<le> length (wordArrays m)" "i \<le> len raw"
  shows "\<exists>ws' m'. rangeLoop tbl g raw i ws m = Some (ws', m')
      \<and> advanced n0 m m' ws'
      \<and> len ws' = len ws + (len raw - i)
      \<and> loadWords m' ws'
          = Some (xs @ map (\<lambda>j. \<lparr>word = upper tbl (S ! j), index = int j\<rparr>) [i..<len raw])
      \<and> (len ws + (len raw - i) \<le> cap ws
            \<longrightarrow> mallocs m' = mallocs m \<and> array ws' = array ws \<and> cap ws' = cap ws)
      \<and> (cap ws < len ws + (len raw - i) \<longrightarrow> mallocs m < mallocs m')"
  using assms
proof (induction "len raw - i" arbitrary: i ws m xs)
  case 0
  then have e: "rangeLoop tbl g raw i ws m = Some (ws, m)" and i: "i = len raw"
    by (simp_all add: rangeLoop_end)
  from "0.prems"(2,3) have "advanced n0 m m ws"
    by (simp add: advanced_def)
  moreover have "len ws \<le> cap ws"
    using "0.prems"(2) by (simp add: validWords_def)
  ultimately show ?case
    using e i "0.prems"(4) by simp
next
  case (Suc k)
  then have lt: "i < len raw" by simp
  define x where "x = \<lparr>word = upper tbl (S ! i), index = int i\<rparr>"
  have ld: "loadString m raw i = Some (S ! i)"
    using Suc.prems(1) lt by (rule loadString_nth)
  from append_Word_correct [OF Suc.prems(2,3,4,5), of g x] obtain ws1 m1 where
    ap: "append_Word g ws x m = Some (ws1, m1)"
    and ad: "advanced n0 m m1 ws1"
    and ln: "len ws1 = len ws + 1"
    and lw: "loadWords m1 ws1 = Some (xs @ [x])"
    and same: "len ws < cap ws \<longrightarrow> mallocs m1 = mallocs m \<and> array ws1 = array ws \<and> cap ws1 = cap ws"
    and more: "\<not> len ws < cap ws \<longrightarrow> mallocs m1 = mallocs m + 1
            \<and> cap ws1 = max (len ws + 1) (g (len ws + 1) (cap ws))"
    by blast
  have st: "rangeLoop tbl g raw i ws m = rangeLoop tbl g raw (i + 1) ws1 m1"
    using lt ld process_eq [of tbl "S ! i"] ap [unfolded x_def] by (rule rangeLoop_step)
  have S1: "loadStrings m1 raw = Some S"
    using ad Suc.prems(1) loadStrings_frame [of m1 m raw] by (simp add: advanced_def)
  have v1: "validWords m1 ws1" and f1: "fresh n0 ws1"
    and n1: "n0 \<le> length (wordArrays m1)"
    using ad Suc.prems(5) by (auto simp add: advanced_def)
  have k: "k = len raw - (i + 1)" and i1: "i + 1 \<le> len raw"
    using Suc.hyps(2) by simp_all
  from Suc.hyps(1) [OF k S1 v1 f1 lw n1 i1] obtain ws' m' where
    r: "rangeLoop tbl g raw (i + 1) ws1 m1 = Some (ws', m')"
    and ad': "advanced n0 m1 m' ws'"
    and ln': "len ws' = len ws1 + (len raw - (i + 1))"
    and lw': "loadWords m' ws'
          = Some ((xs @ [x]) @ map (\<lambda>j. \<lparr>word = upper tbl (S ! j), index = int j\<rparr>) [i + 1..<len raw])"
    and same': "len ws1 + (len raw - (i + 1)) \<le> cap ws1
            \<longrightarrow> mallocs m' = mallocs m1 \<and> array ws' = array ws1 \<and> cap ws' = cap ws1"
    and more': "cap ws1 < len ws1 + (len raw - (i + 1)) \<longrightarrow> mallocs m1 < mallocs m'"
    by blast
  have up: "[i..<len raw] = i # [i + 1..<len raw]"
    using lt by (simp add: upt_conv_Cons)
  have mono: "mallocs m \<le> mallocs m1" "mallocs m1 \<le> mallocs m'"
    using ad ad' by (simp_all add: advanced_def)
  have "rangeLoop tbl g raw i ws m = Some (ws', m')"
    using st r by simp
  moreover have "advanced n0 m m' ws'"
    using ad ad' by (rule advanced_trans)
  moreover have "len ws' = len ws + (len raw - i)"
    using ln ln' lt by simp
  moreover have "loadWords m' ws'
      = Some (xs @ map (\<lambda>j. \<lparr>word = upper tbl (S ! j), index = int j\<rparr>) [i..<len raw])"
    using lw' by (simp add: up x_def)
  moreover have "len ws + (len raw - i) \<le> cap ws
      \<longrightarrow> mallocs m' = mallocs m \<and> array ws' = array ws \<and> cap ws' = cap ws"
    using same same' ln lt by auto
  moreover have "cap ws < len ws + (len raw - i) \<longrightarrow> mallocs m < mallocs m'"
  proof
    assume c: "cap ws < len ws + (len raw - i)"
    show "mallocs m < mallocs m'"
    proof (cases "len ws < cap ws")
      case True
      with same have "mallocs m1 = mallocs m" "cap ws1 = cap ws" by simp_all
      with c ln lt more' show ?thesis by simp
    next
      case False
      with more have "mallocs m1 = mallocs m + 1" by simp
      with mono show ?thesis by simp
    qed
  qed
  ultimately show ?case by blast
qed

lemma ProcessWordsFaster_run:
  assumes S: "loadStrings m raw = Some S"
  shows "\<exists>out m'. ProcessWordsFaster tbl g raw m = Some (out, m')
      \<and> advanced (length (wordArrays m)) m m' out
      \<and> len out = len raw
      \<and> loadWords m' out = Some (wanted tbl S)
      \<and> mallocs m' = mallocs m + (if len raw = 0 then 0 else 1)
      \<and> out = fst (makeslice (len raw) m) \<lparr>len := len raw\<rparr>"
proof -
  define n0 where "n0 = length (wordArrays m)"
  obtain ws m0 where mk: "makeslice (len raw) m = (ws, m0)"
    by (cases "makeslice (len raw) m")
  have ws: "len ws = 0" "cap ws = len raw" "validWords m0 ws" "fresh n0 ws"
    "loadWords m0 ws = Some []" "stringArrays m0 = stringArrays m"
    "take n0 (wordArrays m0) = wordArrays m" "n0 \<le> length (wordArrays m0)"
    "mallocs m0 = mallocs m + (if len raw = 0 then 0 else 1)"
    "length (wordArrays m0) = n0 + (if len raw = 0 then 0 else 1)"
    using mk by (auto simp add: makeslice_def validWords_def fresh_def loadWords_def n0_def
        split: if_splits)
  have S0: "loadStrings m0 raw = Some S"
    using S loadStrings_frame [of m0 m raw] ws(6) by simp
  from rangeLoop_correct [OF S0 ws(3,4,5,8), of 0 tbl g] obtain out m' where
    r: "rangeLoop tbl g raw 0 ws m0 = Some (out, m')"
    and ad: "advanced n0 m0 m' out"
    and ln: "len out = len ws + (len raw - 0)"
    and lw: "loadWords m' out
          = Some ([] @ map (\<lambda>j. \<lparr>word = upper tbl (S ! j), index = int j\<rparr>) [0..<len raw])"
    and same: "len ws + (len raw - 0) \<le> cap ws
            \<longrightarrow> mallocs m' = mallocs m0 \<and> array out = array ws \<and> cap out = cap ws"
    by blast
  have eq: "mallocs m' = mallocs m0" "array out = array ws" "cap out = cap ws"
    using same ws(1,2) by simp_all
  have "ProcessWordsFaster tbl g raw m = Some (out, m')"
    using mk r by (simp add: ProcessWordsFaster_def)
  moreover have "advanced n0 m m' out"
    using ad ws eq by (auto simp add: advanced_def n0_def)
  moreover have "loadWords m' out = Some (wanted tbl S)"
    using lw loadStrings_length [OF S] by (simp add: wanted_def)
  moreover have "out = ws\<lparr>len := len raw\<rparr>"
    using eq ln ws(1) by simp
  ultimately show ?thesis
    using ln ws(1,9) eq mk by (auto simp add: n0_def)
qed

lemma ProcessWords_run:
  assumes S: "loadStrings m raw = Some S"
  shows "\<exists>out m'. ProcessWords tbl g raw m = Some (out, m')
      \<and> advanced (length (wordArrays m)) m m' out
      \<and> len out = len raw
      \<and> loadWords m' out = Some (wanted tbl S)
      \<and> (0 < len raw \<longrightarrow> mallocs m < mallocs m')"
proof -
  define n0 where "n0 = length (wordArrays m)"
  define ws where "ws = \<lparr>array = Zerobase, len = 0, cap = 0\<rparr>"
  have mk: "makeslice 0 m = (ws, m)"
    by (simp add: makeslice_def ws_def)
  have w: "validWords m ws" "fresh n0 ws" "loadWords m ws = Some []" "n0 \<le> length (wordArrays m)"
    by (simp_all add: validWords_def fresh_def loadWords_def ws_def n0_def)
  from rangeLoop_correct [OF S w, of 0 tbl g] obtain out m' where
    r: "rangeLoop tbl g raw 0 ws m = Some (out, m')"
    and ad: "advanced n0 m m' out"
    and ln: "len out = len ws + (len raw - 0)"
    and lw: "loadWords m' out
          = Some ([] @ map (\<lambda>j. \<lparr>word = upper tbl (S ! j), index = int j\<rparr>) [0..<len raw])"
    and more: "cap ws < len ws + (len raw - 0) \<longrightarrow> mallocs m < mallocs m'"
    by blast
  have "ProcessWords tbl g raw m = Some (out, m')"
    using mk r by (simp add: ProcessWords_def)
  moreover have "loadWords m' out = Some (wanted tbl S)"
    using lw loadStrings_length [OF S] by (simp add: wanted_def)
  ultimately show ?thesis
    using ad ln more by (auto simp add: n0_def ws_def)
qed

lemma ProcessWords_regrows:
  assumes S: "loadStrings m raw = Some S" and long: "max 1 (g 1 0) < len raw"
    and run: "ProcessWords tbl g raw m = Some (out, m')"
  shows "mallocs m + 2 \<le> mallocs m'"
proof -
  define n0 where "n0 = length (wordArrays m)"
  define ws where "ws = \<lparr>array = Zerobase, len = 0, cap = 0\<rparr>"
  define x where "x = \<lparr>word = upper tbl (S ! 0), index = int 0\<rparr>"
  have mk: "makeslice 0 m = (ws, m)"
    by (simp add: makeslice_def ws_def)
  have w: "validWords m ws" "fresh n0 ws" "loadWords m ws = Some []" "n0 \<le> length (wordArrays m)"
    by (simp_all add: validWords_def fresh_def loadWords_def ws_def n0_def)
  have lt: "0 < len raw" using long by simp
  from append_Word_correct [OF w, of g x] obtain ws1 m1 where
    ap: "append_Word g ws x m = Some (ws1, m1)"
    and ad: "advanced n0 m m1 ws1"
    and ln: "len ws1 = len ws + 1"
    and lw: "loadWords m1 ws1 = Some ([] @ [x])"
    and more: "\<not> len ws < cap ws \<longrightarrow> mallocs m1 = mallocs m + 1
            \<and> cap ws1 = max (len ws + 1) (g (len ws + 1) (cap ws))"
    by blast
  have m1: "mallocs m1 = mallocs m + 1" "cap ws1 = max 1 (g 1 0)" "len ws1 = 1"
    using more ln by (simp_all add: ws_def)
  have st: "rangeLoop tbl g raw 0 ws m = rangeLoop tbl g raw (0 + 1) ws1 m1"
    using lt loadString_nth [OF S lt] process_eq [of tbl "S ! 0"] ap [unfolded x_def]
    by (rule rangeLoop_step)
  have S1: "loadStrings m1 raw = Some S"
    using ad S loadStrings_frame [of m1 m raw] by (simp add: advanced_def)
  have v1: "validWords m1 ws1" and f1: "fresh n0 ws1" and n1: "n0 \<le> length (wordArrays m1)"
    using ad w(4) by (auto simp add: advanced_def)
  have i1: "0 + 1 \<le> len raw" using lt by simp
  from rangeLoop_correct [OF S1 v1 f1 lw n1 i1, of tbl g] obtain out' m'' where
    r: "rangeLoop tbl g raw (0 + 1) ws1 m1 = Some (out', m'')"
    and more': "cap ws1 < len ws1 + (len raw - (0 + 1)) \<longrightarrow> mallocs m1 < mallocs m''"
    by blast
  have "ProcessWords tbl g raw m = Some (out', m'')"
    using mk st r by (simp add: ProcessWords_def)
  with run have "m'' = m'" by simp
  with more' m1 long lt show ?thesis by simp
qed

section \<open>What the two functions return\<close>

lemma returned_ProcessWords:
  assumes "loadStrings m raw = Some S"
  shows "returned (ProcessWords tbl g raw m) = Some (wanted tbl S)"
proof -
  from ProcessWords_run [OF assms, of tbl g] obtain out m' where
    "ProcessWords tbl g raw m = Some (out, m')" "loadWords m' out = Some (wanted tbl S)"
    by blast
  then show ?thesis by (simp add: returned_def)
qed

lemma returned_ProcessWordsFaster:
  assumes "loadStrings m raw = Some S"
  shows "returned (ProcessWordsFaster tbl g raw m) = Some (wanted tbl S)"
proof -
  from ProcessWordsFaster_run [OF assms, of tbl g] obtain out m' where
    "ProcessWordsFaster tbl g raw m = Some (out, m')" "loadWords m' out = Some (wanted tbl S)"
    by blast
  then show ?thesis by (simp add: returned_def)
qed

lemma length_wanted: "length (wanted tbl S) = length S"
  by (simp add: wanted_def)

lemma nth_wanted:
  "i < length S \<Longrightarrow> wanted tbl S ! i = \<lparr>word = upper tbl (S ! i), index = int i\<rparr>"
  by (simp add: wanted_def)

lemma map_index_wanted: "map index (wanted tbl S) = map int [0..<length S]"
  by (simp add: wanted_def)

lemma map_word_wanted: "map (\<lambda>w. Some (word w)) (wanted tbl S) = map (process tbl) S"
  by (rule nth_equalityI) (simp_all add: wanted_def process_eq)

lemma example_loads: "loadStrings exampleMemory exampleSlice = Some exampleWords"
  by (simp add: loadStrings_def exampleMemory_def exampleSlice_def exampleWords_def)

lemma upperByte_idem: "upperByte (upperByte c) = upperByte c"
proof (cases "0x61 \<le> bval c \<and> bval c \<le> 0x7A")
  case True
  then have "bval (char_of (bval c - 0x20)) = bval c - 0x20"
    by (intro bval_char_of) simp_all
  with True show ?thesis by (simp add: upperByte_def)
next
  case False
  then show ?thesis by (auto simp add: upperByte_def)
qed

lemma upperByte_ascii: "bval c < RuneSelf \<Longrightarrow> bval (upperByte c) < RuneSelf"
proof (cases "0x61 \<le> bval c \<and> bval c \<le> 0x7A")
  case True
  then have "bval (char_of (bval c - 0x20)) = bval c - 0x20"
    by (intro bval_char_of) simp_all
  with True show ?thesis by (simp add: upperByte_def)
next
  case False
  assume "bval c < RuneSelf"
  with False show ?thesis by (auto simp add: upperByte_def)
qed

lemma upper_ascii:
  assumes "list_all (\<lambda>c. bval c < RuneSelf) x"
  shows "upper tbl x = map upperByte x" "upper tbl (upper tbl x) = upper tbl x"
proof -
  have a: "\<forall>c \<in> set x. bval c < RuneSelf"
    using assms by (simp add: list_all_iff)
  show u: "upper tbl x = map upperByte x"
    unfolding upper_def using a by (rule mapRunes_ascii)
  have "\<forall>c \<in> set (map upperByte x). bval c < RuneSelf"
    using a by (auto simp add: upperByte_ascii)
  then have "upper tbl (map upperByte x) = map upperByte (map upperByte x)"
    unfolding upper_def by (rule mapRunes_ascii)
  then show "upper tbl (upper tbl x) = upper tbl x"
    by (simp add: u upperByte_idem)
qed

section \<open>The claims\<close>

text \<open>
  Every claim is about a call on a memory \<open>m\<close> in which the argument \<open>rawWords\<close> is a
  well-formed slice with elements \<open>S\<close> (\<open>loadStrings m rawWords = Some S\<close>), for any case
  table \<open>tbl\<close> and any growth policy \<open>g\<close> of the runtime.
\<close>

text \<open>
  C1. For every input sequence, \<open>ProcessWordsFaster\<close> and \<open>ProcessWords\<close> return identical
  sequences: the same records at the same positions, as many as the input has elements.
\<close>

theorem transforms_agree:
  assumes "loadStrings m rawWords = Some S"
  shows "returned (ProcessWordsFaster tbl g rawWords m) = returned (ProcessWords tbl g rawWords m)
    \<and> (\<exists>ws. returned (ProcessWords tbl g rawWords m) = Some ws \<and> length ws = length S)"
  using returned_ProcessWords [OF assms, of tbl g] returned_ProcessWordsFaster [OF assms, of tbl g]
  by (simp add: length_wanted)

theorem transforms_agree_witness:
  "loadStrings exampleMemory exampleSlice = Some exampleWords
   \<and> returned (ProcessWordsFaster (\<lambda>r. r) doubling exampleSlice exampleMemory)
       = returned (ProcessWords (\<lambda>r. r) doubling exampleSlice exampleMemory)
   \<and> (\<exists>ws. returned (ProcessWords (\<lambda>r. r) doubling exampleSlice exampleMemory) = Some ws
         \<and> length ws = length exampleWords)"
  using transforms_agree [OF example_loads, of "\<lambda>r. r" doubling] example_loads by simp

lemma upper_encoded:
  assumes "list_all scalar rs"
  shows "upper tbl (concat (map encodeRune rs))
    = concat (map (\<lambda>r. written (unicode_ToUpper tbl r)) rs)"
  using assms
proof (induction rs)
  case Nil
  show ?case by (simp add: upper_def mapRunes_Nil)
next
  case (Cons r rs)
  then have r: "scalar r" and rs: "list_all scalar rs"
    by simp_all
  have "upper tbl (encodeRune r @ concat (map encodeRune rs))
    = written (unicode_ToUpper tbl r) @ upper tbl (concat (map encodeRune rs))"
    unfolding upper_def using r by (rule mapRunes_encodeRune)
  with Cons.IH [OF rs] show ?case by simp
qed

lemma accent_loads: "loadStrings accentMemory accentSlice = Some accentWords"
  by (simp add: loadStrings_def accentMemory_def accentSlice_def accentWords_def)

lemma accent_upper:
  "concat (map (\<lambda>r. written (unicode_ToUpper latin1Upper r)) [0x63, 0x61, 0x66, 0xE9])
    = [CHR ''C'', CHR ''A'', CHR ''F'', CHR 0xC3, CHR 0x89]"
  by code_simp

lemma accent_encoded: "accentWords ! 0 = concat (map encodeRune [0x63, 0x61, 0x66, 0xE9])"
  by code_simp

text \<open>
  C2. For every input sequence \<open>S\<close> and every index \<open>i\<close> below its length, element \<open>i\<close> of
  what either function returns has the \<open>index\<close> \<open>i\<close>, and its \<open>word\<close> is \<open>S ! i\<close> in upper
  case: the string \<open>strings.ToUpper\<close> returns for \<open>S ! i\<close>, which is \<open>upper tbl (S ! i)\<close>.
  When \<open>S ! i\<close> is all ASCII, that is \<open>S ! i\<close> with each byte \<open>a..z\<close> replaced by \<open>A..Z\<close>;
  when \<open>S ! i\<close> is the UTF-8 encoding of the scalar values \<open>rs\<close>, it is what
  \<open>strings.Map\<close> writes for \<open>unicode.ToUpper\<close> of each of them, in order.
\<close>

theorem element_at_index:
  assumes "loadStrings m rawWords = Some S" and "i < length S"
  shows "\<exists>ws. returned (ProcessWords tbl g rawWords m) = Some ws
      \<and> returned (ProcessWordsFaster tbl g rawWords m) = Some ws
      \<and> i < length ws
      \<and> index (ws ! i) = int i
      \<and> word (ws ! i) = upper tbl (S ! i)
      \<and> ToUpper tbl (S ! i) = Some (word (ws ! i))
      \<and> process tbl (S ! i) = Some (word (ws ! i))
      \<and> (list_all (\<lambda>c. bval c < RuneSelf) (S ! i) \<longrightarrow> word (ws ! i) = map upperByte (S ! i))
      \<and> (list_all scalar rs \<and> S ! i = concat (map encodeRune rs)
           \<longrightarrow> word (ws ! i) = concat (map (\<lambda>r. written (unicode_ToUpper tbl r)) rs))"
proof -
  let ?ws = "wanted tbl S"
  have w: "word (?ws ! i) = upper tbl (S ! i)" and x: "index (?ws ! i) = int i"
    using assms(2) by (simp_all add: nth_wanted)
  have "returned (ProcessWords tbl g rawWords m) = Some ?ws"
    using assms(1) by (rule returned_ProcessWords)
  moreover have "returned (ProcessWordsFaster tbl g rawWords m) = Some ?ws"
    using assms(1) by (rule returned_ProcessWordsFaster)
  moreover have "i < length ?ws"
    using assms(2) by (simp add: length_wanted)
  moreover have "ToUpper tbl (S ! i) = Some (word (?ws ! i))"
    unfolding w by (simp add: ToUpper_eq upper_def)
  moreover have "process tbl (S ! i) = Some (word (?ws ! i))"
    unfolding w by (rule process_eq)
  moreover have "list_all (\<lambda>c. bval c < RuneSelf) (S ! i) \<longrightarrow> word (?ws ! i) = map upperByte (S ! i)"
    unfolding w using upper_ascii(1) [of "S ! i" tbl] by simp
  moreover have "list_all scalar rs \<and> S ! i = concat (map encodeRune rs)
      \<longrightarrow> word (?ws ! i) = concat (map (\<lambda>r. written (unicode_ToUpper tbl r)) rs)"
    unfolding w using upper_encoded [of rs tbl] by simp
  ultimately show ?thesis
    using w x by blast
qed

theorem element_at_index_witness:
  "loadStrings accentMemory accentSlice = Some accentWords
   \<and> 0 < length accentWords \<and> 1 < length accentWords
   \<and> list_all scalar [0x63, 0x61, 0x66, 0xE9]
   \<and> accentWords ! 0 = concat (map encodeRune [0x63, 0x61, 0x66, 0xE9])
   \<and> list_all (\<lambda>c. bval c < RuneSelf) (accentWords ! 1)
   \<and> (\<exists>ws. returned (ProcessWords latin1Upper doubling accentSlice accentMemory) = Some ws
      \<and> returned (ProcessWordsFaster latin1Upper doubling accentSlice accentMemory) = Some ws
      \<and> 1 < length ws
      \<and> index (ws ! 0) = 0 \<and> index (ws ! 1) = 1
      \<and> word (ws ! 0) = [CHR ''C'', CHR ''A'', CHR ''F'', CHR 0xC3, CHR 0x89]
      \<and> word (ws ! 1) = ''WHALE''
      \<and> ToUpper latin1Upper (accentWords ! 0) = Some (word (ws ! 0))
      \<and> ToUpper latin1Upper (accentWords ! 1) = Some (word (ws ! 1)))"
proof -
  have i: "0 < length accentWords" "1 < length accentWords"
    by (simp_all add: accentWords_def)
  have s: "list_all scalar [0x63, 0x61, 0x66, 0xE9]"
    by (simp add: scalar_def)
  have a: "list_all (\<lambda>c. bval c < RuneSelf) (accentWords ! 1)"
    by (simp add: accentWords_def)
  have u: "map upperByte (accentWords ! 1) = ''WHALE''"
    by (simp add: accentWords_def upperByte_def char_of_def)
  from element_at_index [OF accent_loads i(1), of latin1Upper doubling "[0x63, 0x61, 0x66, 0xE9]"]
  obtain ws where ws: "returned (ProcessWords latin1Upper doubling accentSlice accentMemory) = Some ws"
      "returned (ProcessWordsFaster latin1Upper doubling accentSlice accentMemory) = Some ws"
      "index (ws ! 0) = 0" "ToUpper latin1Upper (accentWords ! 0) = Some (word (ws ! 0))"
      "word (ws ! 0) = concat (map (\<lambda>r. written (unicode_ToUpper latin1Upper r)) [0x63, 0x61, 0x66, 0xE9])"
    using s accent_encoded by auto
  from element_at_index [OF accent_loads i(2), of latin1Upper doubling "[]"] ws(1) a
  have "1 < length ws" "index (ws ! 1) = 1" "ToUpper latin1Upper (accentWords ! 1) = Some (word (ws ! 1))"
      "word (ws ! 1) = map upperByte (accentWords ! 1)"
    by auto
  with ws accent_upper u accent_loads i s a accent_encoded show ?thesis
    by simp
qed

lemma nil_loads: "loadStrings exampleMemory nilSlice = Some []"
  by (simp add: loadStrings_def nilSlice_def)

text \<open>
  C3. The result of either function is as long as the input; the empty input gives the
  empty result.
\<close>

theorem output_length:
  assumes "loadStrings m rawWords = Some S"
  shows "map_option length (returned (ProcessWords tbl g rawWords m)) = Some (length S)
    \<and> map_option length (returned (ProcessWordsFaster tbl g rawWords m)) = Some (length S)
    \<and> (S = [] \<longrightarrow> returned (ProcessWords tbl g rawWords m) = Some []
          \<and> returned (ProcessWordsFaster tbl g rawWords m) = Some [])"
  using returned_ProcessWords [OF assms, of tbl g] returned_ProcessWordsFaster [OF assms, of tbl g]
  by (simp add: length_wanted) (simp add: wanted_def)

theorem output_length_witness:
  "loadStrings exampleMemory exampleSlice = Some exampleWords
   \<and> map_option length (returned (ProcessWords (\<lambda>r. r) doubling exampleSlice exampleMemory))
       = Some (length exampleWords)
   \<and> map_option length (returned (ProcessWordsFaster (\<lambda>r. r) doubling exampleSlice exampleMemory))
       = Some (length exampleWords)
   \<and> loadStrings exampleMemory nilSlice = Some []
   \<and> returned (ProcessWords (\<lambda>r. r) doubling nilSlice exampleMemory) = Some []
   \<and> returned (ProcessWordsFaster (\<lambda>r. r) doubling nilSlice exampleMemory) = Some []"
  using output_length [OF example_loads, of "\<lambda>r. r" doubling]
    output_length [OF nil_loads, of "\<lambda>r. r" doubling] example_loads nil_loads
  by simp

text \<open>
  C4. The positions stored in the result of either function are the zero-based indices
  \<open>0, 1, ...\<close> of the input elements: pairwise distinct, strictly increasing, and the words
  stand in the order of the input.
\<close>

theorem positions_in_order:
  assumes "loadStrings m rawWords = Some S"
  shows "\<exists>ws. returned (ProcessWords tbl g rawWords m) = Some ws
      \<and> returned (ProcessWordsFaster tbl g rawWords m) = Some ws
      \<and> map index ws = map int [0..<length S]
      \<and> distinct (map index ws)
      \<and> sorted_wrt (<) (map index ws)
      \<and> map (\<lambda>w. Some (word w)) ws = map (process tbl) S"
proof -
  have "distinct (map int [0..<length S])"
    by (simp add: distinct_map inj_on_def)
  moreover have "sorted_wrt (<) (map int [0..<length S])"
    by (simp add: sorted_wrt_map sorted_wrt_upt)
  ultimately show ?thesis
    using returned_ProcessWords [OF assms, of tbl g]
      returned_ProcessWordsFaster [OF assms, of tbl g]
    by (simp add: map_index_wanted map_word_wanted)
qed

theorem positions_in_order_witness:
  "loadStrings exampleMemory exampleSlice = Some exampleWords
   \<and> (\<exists>ws. returned (ProcessWords (\<lambda>r. r) doubling exampleSlice exampleMemory) = Some ws
      \<and> returned (ProcessWordsFaster (\<lambda>r. r) doubling exampleSlice exampleMemory) = Some ws
      \<and> map index ws = map int [0..<length exampleWords]
      \<and> distinct (map index ws)
      \<and> sorted_wrt (<) (map index ws)
      \<and> map (\<lambda>w. Some (word w)) ws = map (process (\<lambda>r. r)) exampleWords)"
  using positions_in_order [OF example_loads, of "\<lambda>r. r" doubling] example_loads
  by simp

text \<open>
  C5. \<open>process\<close> returns a string for every byte sequence, valid UTF-8 or not, and
  both functions return a slice that holds a record for every input element: there is
  no failing and no partial result.
\<close>

theorem never_fails:
  "(\<exists>u. process tbl w = Some u)
   \<and> (loadStrings m rawWords = Some S \<longrightarrow>
        (\<exists>out m' ws. ProcessWords tbl g rawWords m = Some (out, m')
            \<and> len out = len rawWords \<and> loadWords m' out = Some ws \<and> length ws = length S
            \<and> map (\<lambda>w. Some (word w)) ws = map (process tbl) S)
        \<and> (\<exists>out m' ws. ProcessWordsFaster tbl g rawWords m = Some (out, m')
            \<and> len out = len rawWords \<and> loadWords m' out = Some ws \<and> length ws = length S
            \<and> map (\<lambda>w. Some (word w)) ws = map (process tbl) S))"
proof (intro conjI impI)
  show "\<exists>u. process tbl w = Some u"
    by (simp add: process_eq)
next
  assume S: "loadStrings m rawWords = Some S"
  from ProcessWords_run [OF S, of tbl g] obtain out m' where
    "ProcessWords tbl g rawWords m = Some (out, m')" "len out = len rawWords"
    "loadWords m' out = Some (wanted tbl S)"
    by blast
  then show "\<exists>out m' ws. ProcessWords tbl g rawWords m = Some (out, m')
      \<and> len out = len rawWords \<and> loadWords m' out = Some ws \<and> length ws = length S
      \<and> map (\<lambda>w. Some (word w)) ws = map (process tbl) S"
    by (simp add: length_wanted map_word_wanted)
next
  assume S: "loadStrings m rawWords = Some S"
  from ProcessWordsFaster_run [OF S, of tbl g] obtain out m' where
    "ProcessWordsFaster tbl g rawWords m = Some (out, m')" "len out = len rawWords"
    "loadWords m' out = Some (wanted tbl S)"
    by blast
  then show "\<exists>out m' ws. ProcessWordsFaster tbl g rawWords m = Some (out, m')
      \<and> len out = len rawWords \<and> loadWords m' out = Some ws \<and> length ws = length S
      \<and> map (\<lambda>w. Some (word w)) ws = map (process tbl) S"
    by (simp add: length_wanted map_word_wanted)
qed

lemma invalid_loads: "loadStrings invalidMemory invalidSlice = Some invalidWords"
  by (simp add: loadStrings_def invalidMemory_def invalidSlice_def invalidWords_def)

lemma process_invalid:
  "process (\<lambda>r. r) [CHR 0xFF, CHR ''a''] = Some [CHR 0xEF, CHR 0xBF, CHR 0xBD, CHR ''A'']"
  by code_simp

theorem never_fails_witness:
  "process (\<lambda>r. r) [CHR 0xFF, CHR ''a''] = Some [CHR 0xEF, CHR 0xBF, CHR 0xBD, CHR ''A'']
   \<and> (\<exists>u. process (\<lambda>r. r) [CHR 0xFF, CHR ''a''] = Some u)
   \<and> loadStrings invalidMemory invalidSlice = Some invalidWords
   \<and> (\<exists>out m' ws. ProcessWords (\<lambda>r. r) doubling invalidSlice invalidMemory = Some (out, m')
        \<and> len out = len invalidSlice \<and> loadWords m' out = Some ws
        \<and> length ws = length invalidWords
        \<and> map (\<lambda>w. Some (word w)) ws = map (process (\<lambda>r. r)) invalidWords)
   \<and> (\<exists>out m' ws. ProcessWordsFaster (\<lambda>r. r) doubling invalidSlice invalidMemory = Some (out, m')
        \<and> len out = len invalidSlice \<and> loadWords m' out = Some ws
        \<and> length ws = length invalidWords
        \<and> map (\<lambda>w. Some (word w)) ws = map (process (\<lambda>r. r)) invalidWords)"
  using never_fails [of "\<lambda>r. r" "[CHR 0xFF, CHR ''a'']" invalidMemory invalidSlice invalidWords doubling]
    invalid_loads process_invalid
  by simp

lemma frame_of_advanced:
  assumes "advanced (length (wordArrays m)) m m' out" "loadStrings m raw = Some S"
  shows "stringArrays m' = stringArrays m" "loadStrings m' raw = Some S"
    "take (length (wordArrays m)) (wordArrays m') = wordArrays m"
    "allocatedSince (length (wordArrays m)) out"
proof -
  show s: "stringArrays m' = stringArrays m"
    using assms(1) by (simp add: advanced_def)
  show "loadStrings m' raw = Some S"
    using loadStrings_frame [OF s, of raw] assms(2) by simp
  show "take (length (wordArrays m)) (wordArrays m') = wordArrays m"
    using assms(1) by (simp add: advanced_def)
  show "allocatedSince (length (wordArrays m)) out"
    using assms(1)
    by (cases "array out") (simp_all add: advanced_def fresh_def validWords_def allocatedSince_def)
qed

text \<open>
  C6. A call of either function leaves the input as it was and changes nothing that
  existed before the call: the \<open>[]string\<close> arrays are the same, so the argument still
  has the elements \<open>S\<close>; every \<open>[]Word\<close> array that existed is unchanged; and the returned
  slice lies in an array allocated by the call.
\<close>

theorem input_unchanged:
  assumes "loadStrings m rawWords = Some S"
  shows "\<exists>out m' out2 m2.
      ProcessWords tbl g rawWords m = Some (out, m')
      \<and> ProcessWordsFaster tbl g rawWords m = Some (out2, m2)
      \<and> stringArrays m' = stringArrays m \<and> stringArrays m2 = stringArrays m
      \<and> loadStrings m' rawWords = Some S \<and> loadStrings m2 rawWords = Some S
      \<and> take (length (wordArrays m)) (wordArrays m') = wordArrays m
      \<and> take (length (wordArrays m)) (wordArrays m2) = wordArrays m
      \<and> allocatedSince (length (wordArrays m)) out
      \<and> allocatedSince (length (wordArrays m)) out2"
proof -
  from ProcessWords_run [OF assms, of tbl g] obtain out m' where
    r: "ProcessWords tbl g rawWords m = Some (out, m')"
    and a: "advanced (length (wordArrays m)) m m' out"
    by blast
  from ProcessWordsFaster_run [OF assms, of tbl g] obtain out2 m2 where
    r2: "ProcessWordsFaster tbl g rawWords m = Some (out2, m2)"
    and a2: "advanced (length (wordArrays m)) m m2 out2"
    by blast
  show ?thesis
    using r r2 frame_of_advanced [OF a assms] frame_of_advanced [OF a2 assms] by simp
qed

theorem input_unchanged_witness:
  "loadStrings invalidMemory invalidSlice = Some invalidWords
   \<and> (\<exists>out m' out2 m2.
      ProcessWords (\<lambda>r. r) doubling invalidSlice invalidMemory = Some (out, m')
      \<and> ProcessWordsFaster (\<lambda>r. r) doubling invalidSlice invalidMemory = Some (out2, m2)
      \<and> stringArrays m' = stringArrays invalidMemory \<and> stringArrays m2 = stringArrays invalidMemory
      \<and> loadStrings m' invalidSlice = Some invalidWords
      \<and> loadStrings m2 invalidSlice = Some invalidWords
      \<and> take (length (wordArrays invalidMemory)) (wordArrays m') = wordArrays invalidMemory
      \<and> take (length (wordArrays invalidMemory)) (wordArrays m2) = wordArrays invalidMemory
      \<and> allocatedSince (length (wordArrays invalidMemory)) out
      \<and> allocatedSince (length (wordArrays invalidMemory)) out2)"
  using input_unchanged [OF invalid_loads, of "\<lambda>r. r" doubling] invalid_loads
  by simp

text \<open>
  C7. On a non-empty input \<open>ProcessWordsFaster\<close> starts from a slice of capacity
  \<open>length S\<close> and length \<open>0\<close>, obtained by one allocation, and the loop allocates
  nothing more: the call makes exactly one allocation and returns a slice over the array
  \<open>make\<close> allocated, with that capacity. \<open>ProcessWords\<close> allocates at least once, and at
  least twice when the input is longer than the capacity its first growth obtains.
\<close>

theorem allocations:
  assumes "loadStrings m rawWords = Some S" and "S \<noteq> []"
  shows "cap (fst (makeslice (len rawWords) m)) = length S
    \<and> len (fst (makeslice (len rawWords) m)) = 0
    \<and> mallocs (snd (makeslice (len rawWords) m)) = mallocs m + 1
    \<and> (\<exists>out m'. ProcessWordsFaster tbl g rawWords m = Some (out, m')
          \<and> mallocs m' = mallocs m + 1
          \<and> length (wordArrays m') = length (wordArrays m) + 1
          \<and> array out = array (fst (makeslice (len rawWords) m))
          \<and> cap out = length S \<and> len out = length S)
    \<and> (\<exists>out m'. ProcessWords tbl g rawWords m = Some (out, m')
          \<and> mallocs m < mallocs m'
          \<and> (max 1 (g 1 0) < length S \<longrightarrow> mallocs m + 2 \<le> mallocs m'))"
proof -
  have n: "len rawWords = length S" "0 < len rawWords"
    using assms(2) loadStrings_length [OF assms(1)] by (cases S; simp)+
  have mk: "cap (fst (makeslice (len rawWords) m)) = length S"
    "len (fst (makeslice (len rawWords) m)) = 0"
    "mallocs (snd (makeslice (len rawWords) m)) = mallocs m + 1"
    using n by (simp_all add: makeslice_def)
  from ProcessWordsFaster_run [OF assms(1), of tbl g] obtain out m' where
    f: "ProcessWordsFaster tbl g rawWords m = Some (out, m')"
    and fa: "advanced (length (wordArrays m)) m m' out"
    and fm: "mallocs m' = mallocs m + (if len rawWords = 0 then 0 else 1)"
    and fo: "out = fst (makeslice (len rawWords) m) \<lparr>len := len rawWords\<rparr>"
    by blast
  have f': "mallocs m' = mallocs m + 1" "length (wordArrays m') = length (wordArrays m) + 1"
    "array out = array (fst (makeslice (len rawWords) m))" "cap out = length S" "len out = length S"
    using fm fa n mk(1) by (simp_all add: advanced_def fo)
  from ProcessWords_run [OF assms(1), of tbl g] obtain out1 m1 where
    p: "ProcessWords tbl g rawWords m = Some (out1, m1)"
    and pm: "0 < len rawWords \<longrightarrow> mallocs m < mallocs m1"
    by auto
  have p': "mallocs m < mallocs m1"
    "max 1 (g 1 0) < length S \<longrightarrow> mallocs m + 2 \<le> mallocs m1"
    using pm n ProcessWords_regrows [OF assms(1) _ p] by simp_all
  show ?thesis
    using mk f f' p p' by simp
qed

text \<open>With a runtime that doubles the capacity, four words cost three allocations.\<close>

lemma example_counts:
  "map_option (\<lambda>(out, m'). (cap out, mallocs m')) (ProcessWords (\<lambda>r. r) doubling exampleSlice exampleMemory)
     = Some (4, 3)"
  "map_option (\<lambda>(out, m'). (cap out, mallocs m')) (ProcessWordsFaster (\<lambda>r. r) doubling exampleSlice exampleMemory)
     = Some (4, 1)"
  by code_simp+

theorem allocations_witness:
  "loadStrings exampleMemory exampleSlice = Some exampleWords \<and> exampleWords \<noteq> []
   \<and> max 1 (doubling 1 0) < length exampleWords
   \<and> cap (fst (makeslice (len exampleSlice) exampleMemory)) = length exampleWords
   \<and> len (fst (makeslice (len exampleSlice) exampleMemory)) = 0
   \<and> mallocs (snd (makeslice (len exampleSlice) exampleMemory)) = mallocs exampleMemory + 1
   \<and> (\<exists>out m'. ProcessWordsFaster (\<lambda>r. r) doubling exampleSlice exampleMemory = Some (out, m')
          \<and> mallocs m' = mallocs exampleMemory + 1
          \<and> length (wordArrays m') = length (wordArrays exampleMemory) + 1
          \<and> array out = array (fst (makeslice (len exampleSlice) exampleMemory))
          \<and> cap out = length exampleWords \<and> len out = length exampleWords)
   \<and> (\<exists>out m'. ProcessWords (\<lambda>r. r) doubling exampleSlice exampleMemory = Some (out, m')
          \<and> mallocs exampleMemory < mallocs m'
          \<and> mallocs exampleMemory + 2 \<le> mallocs m')
   \<and> map_option (\<lambda>(out, m'). (cap out, mallocs m'))
         (ProcessWords (\<lambda>r. r) doubling exampleSlice exampleMemory) = Some (4, 3)
   \<and> map_option (\<lambda>(out, m'). (cap out, mallocs m'))
         (ProcessWordsFaster (\<lambda>r. r) doubling exampleSlice exampleMemory) = Some (4, 1)"
proof -
  have ne: "exampleWords \<noteq> []" and long: "max 1 (doubling 1 0) < length exampleWords"
    by (simp_all add: exampleWords_def doubling_def)
  show ?thesis
    using allocations [OF example_loads ne, of "\<lambda>r. r" doubling] example_loads ne long
      example_counts
    by auto
qed

lemma latin1Upper_sub: "\<forall>c. latin1Upper c = c \<or> latin1Upper c = To_UpperCase c"
proof
  fix c :: int
  consider "0xE0 \<le> c \<and> c \<le> 0xF6" | "0xF8 \<le> c \<and> c \<le> 0xFE" | "c = 0xFF" | "c = 0xB5"
    | "\<not> (0xE0 \<le> c \<and> c \<le> 0xFF) \<and> c \<noteq> 0xB5" | "c = 0xF7"
    by linarith
  then show "latin1Upper c = c \<or> latin1Upper c = To_UpperCase c"
  proof cases
    case 1
    then have "To_UpperCase c = c - 0x20"
      by (simp add: To_UpperCase_eq CaseRanges_def)
    with 1 show ?thesis by (simp add: latin1Upper_def)
  next
    case 2
    then have "To_UpperCase c = c - 0x20"
      by (simp add: To_UpperCase_eq CaseRanges_def)
    with 2 show ?thesis by (simp add: latin1Upper_def)
  next
    case 3
    then have "To_UpperCase c = 0x178"
      by (simp add: To_UpperCase_eq CaseRanges_def)
    with 3 show ?thesis by (simp add: latin1Upper_def)
  next
    case 4
    then have "To_UpperCase c = 0x39C"
      by (simp add: To_UpperCase_eq CaseRanges_def)
    with 4 show ?thesis by (simp add: latin1Upper_def)
  next
    case 5
    then show ?thesis by (auto simp add: latin1Upper_def)
  next
    case 6
    then show ?thesis by (simp add: latin1Upper_def)
  qed
qed

lemma process_caseText:
  "process To_UpperCase caseText =
    Some [CHR ''G'', CHR 0xC3, CHR 0x9F, CHR ''I'', CHR 0xE2, CHR 0xB1, CHR 0xAF, CHR 0xC7, CHR 0x84,
          CHR 0xE1, CHR 0xBE, CHR 0x88, CHR 0xF0, CHR 0x90, CHR 0x90, CHR 0x80,
          CHR 0xEF, CHR 0xBF, CHR 0xBD, CHR 0xEF, CHR 0xBF, CHR 0xBD, CHR ''O'']"
  by code_simp

text \<open>
  C8. \<open>process\<close> is idempotent: applied to its own result it returns that result. With the
  case table of Unicode 15.0.0 this holds for every string of bytes, valid UTF-8 or not.
  It also holds with every table that agrees with that one wherever it changes a rune (a
  table with fewer case pairs, as those of earlier versions of Unicode are), with every
  table that maps the scalar values above \<open>MaxASCII\<close> to scalar values which
  \<open>unicode.ToUpper\<close> leaves alone, and, whatever the table, for text that is all ASCII.
\<close>

theorem uppercase_idempotent:
  "(\<exists>u. process To_UpperCase x = Some u \<and> process To_UpperCase u = Some u)
   \<and> ((\<forall>c. tbl c = c \<or> tbl c = To_UpperCase c)
        \<longrightarrow> (\<exists>u. process tbl x = Some u \<and> process tbl u = Some u))
   \<and> (caseTable_closed tbl \<longrightarrow> (\<exists>u. process tbl x = Some u \<and> process tbl u = Some u))
   \<and> (list_all (\<lambda>c. bval c < RuneSelf) x \<longrightarrow> (\<exists>u. process tbl x = Some u \<and> process tbl u = Some u))"
proof -
  have closed: "\<exists>u. process t x = Some u \<and> process t u = Some u" if "caseTable_closed t" for t
  proof -
    from that have "upper t (upper t x) = upper t x"
      unfolding upper_def by (rule mapRunes_idem)
    then show ?thesis
      by (simp add: process_eq)
  qed
  have ascii: "\<exists>u. process tbl x = Some u \<and> process tbl u = Some u"
    if "list_all (\<lambda>c. bval c < RuneSelf) x"
  proof -
    from that have "upper tbl (upper tbl x) = upper tbl x"
      by (rule upper_ascii)
    then show ?thesis
      by (simp add: process_eq)
  qed
  have sub: "\<exists>u. process tbl x = Some u \<and> process tbl u = Some u"
    if "\<forall>c. tbl c = c \<or> tbl c = To_UpperCase c"
  proof -
    from To_UpperCase_closed that have "caseTable_closed tbl"
      by (rule subtable_closed)
    then show ?thesis
      by (rule closed)
  qed
  from closed [OF To_UpperCase_closed] closed [of tbl] ascii sub show ?thesis
    by blast
qed

lemma latin1Upper_closed: "caseTable_closed latin1Upper"
  by (auto simp add: caseTable_closed_def latin1Upper_def scalar_def unicode_ToUpper_def)

lemma process_mixedText:
  "process latin1Upper mixedText
    = Some [CHR ''A'', CHR 0xC3, CHR 0x89, CHR 0xC5, CHR 0xB8, CHR 0xEF, CHR 0xBF, CHR 0xBD, CHR ''Z'']"
  by code_simp

theorem uppercase_idempotent_witness:
  "(\<exists>u. process To_UpperCase caseText = Some u \<and> process To_UpperCase u = Some u)
   \<and> process To_UpperCase caseText =
       Some [CHR ''G'', CHR 0xC3, CHR 0x9F, CHR ''I'', CHR 0xE2, CHR 0xB1, CHR 0xAF, CHR 0xC7, CHR 0x84,
             CHR 0xE1, CHR 0xBE, CHR 0x88, CHR 0xF0, CHR 0x90, CHR 0x90, CHR 0x80,
             CHR 0xEF, CHR 0xBF, CHR 0xBD, CHR 0xEF, CHR 0xBF, CHR 0xBD, CHR ''O'']
   \<and> (\<forall>c. latin1Upper c = c \<or> latin1Upper c = To_UpperCase c)
   \<and> caseTable_closed latin1Upper
   \<and> (\<exists>u. process latin1Upper mixedText = Some u \<and> process latin1Upper u = Some u)
   \<and> process latin1Upper mixedText
       = Some [CHR ''A'', CHR 0xC3, CHR 0x89, CHR 0xC5, CHR 0xB8, CHR 0xEF, CHR 0xBF, CHR 0xBD, CHR ''Z'']
   \<and> list_all (\<lambda>c. bval c < RuneSelf) ''Whale''
   \<and> (\<exists>u. process (\<lambda>r. r) ''Whale'' = Some u \<and> process (\<lambda>r. r) u = Some u)"
proof -
  have a: "list_all (\<lambda>c. bval c < RuneSelf) ''Whale''"
    by simp
  show ?thesis
    using uppercase_idempotent [of caseText latin1Upper] uppercase_idempotent [of mixedText latin1Upper]
      uppercase_idempotent [of "''Whale''" "\<lambda>r. r"]
      latin1Upper_sub latin1Upper_closed process_caseText process_mixedText a
    by blast
qed

lemma upper_the: "upper tbl ''the'' = ''THE''"
  using upper_ascii(1) [of "''the''" tbl] by (simp add: upperByte_def char_of_def)

lemma upper_Whale: "upper tbl ''Whale'' = ''WHALE''"
  using upper_ascii(1) [of "''Whale''" tbl] by (simp add: upperByte_def char_of_def)

lemma upper_IS: "upper tbl ''IS'' = ''IS''"
  using upper_ascii(1) [of "''IS''" tbl] by (simp add: upperByte_def char_of_def)

lemma upper_big: "upper tbl ''big'' = ''BIG''"
  using upper_ascii(1) [of "''big''" tbl] by (simp add: upperByte_def char_of_def)

lemma upper_a: "upper tbl ''a'' = ''A''"
  using upper_ascii(1) [of "''a''" tbl] by (simp add: upperByte_def char_of_def)

lemma upper_empty: "upper tbl [] = []"
  by (simp add: upper_def mapRunes_Nil)

lemma wanted_four:
  "wanted tbl [a, b, c, d] =
    [\<lparr>word = upper tbl a, index = 0\<rparr>, \<lparr>word = upper tbl b, index = 1\<rparr>,
     \<lparr>word = upper tbl c, index = 2\<rparr>, \<lparr>word = upper tbl d, index = 3\<rparr>]"
proof -
  have "[0..<4] = [0, 1, 2, 3]"
    by (simp add: upt_rec)
  then show ?thesis
    by (simp add: wanted_def)
qed

lemma wanted_one: "wanted tbl [a] = [\<lparr>word = upper tbl a, index = 0\<rparr>]"
  by (simp add: wanted_def)

text \<open>
  C9. On the input \<open>["the", "Whale", "IS", "big"]\<close> either function returns
  \<open>[{"THE",0}, {"WHALE",1}, {"IS",2}, {"BIG",3}]\<close>, and on \<open>["a"]\<close> it returns
  \<open>[{"A",0}]\<close>, wherever the input lies in memory.
\<close>

theorem concrete_scenarios:
  "(loadStrings m rawWords = Some [''the'', ''Whale'', ''IS'', ''big''] \<longrightarrow>
      returned (ProcessWords tbl g rawWords m)
        = Some [\<lparr>word = ''THE'', index = 0\<rparr>, \<lparr>word = ''WHALE'', index = 1\<rparr>,
                \<lparr>word = ''IS'', index = 2\<rparr>, \<lparr>word = ''BIG'', index = 3\<rparr>]
      \<and> returned (ProcessWordsFaster tbl g rawWords m)
        = Some [\<lparr>word = ''THE'', index = 0\<rparr>, \<lparr>word = ''WHALE'', index = 1\<rparr>,
                \<lparr>word = ''IS'', index = 2\<rparr>, \<lparr>word = ''BIG'', index = 3\<rparr>])
   \<and> (loadStrings m rawWords = Some [''a''] \<longrightarrow>
      returned (ProcessWords tbl g rawWords m) = Some [\<lparr>word = ''A'', index = 0\<rparr>]
      \<and> returned (ProcessWordsFaster tbl g rawWords m) = Some [\<lparr>word = ''A'', index = 0\<rparr>])"
proof (intro conjI impI)
  assume S: "loadStrings m rawWords = Some [''the'', ''Whale'', ''IS'', ''big'']"
  have w: "wanted tbl [''the'', ''Whale'', ''IS'', ''big'']
      = [\<lparr>word = ''THE'', index = 0\<rparr>, \<lparr>word = ''WHALE'', index = 1\<rparr>,
         \<lparr>word = ''IS'', index = 2\<rparr>, \<lparr>word = ''BIG'', index = 3\<rparr>]"
    by (simp only: wanted_four upper_the upper_Whale upper_IS upper_big)
  show "returned (ProcessWords tbl g rawWords m)
        = Some [\<lparr>word = ''THE'', index = 0\<rparr>, \<lparr>word = ''WHALE'', index = 1\<rparr>,
                \<lparr>word = ''IS'', index = 2\<rparr>, \<lparr>word = ''BIG'', index = 3\<rparr>]"
    using returned_ProcessWords [OF S, of tbl g] by (simp only: w)
  show "returned (ProcessWordsFaster tbl g rawWords m)
        = Some [\<lparr>word = ''THE'', index = 0\<rparr>, \<lparr>word = ''WHALE'', index = 1\<rparr>,
                \<lparr>word = ''IS'', index = 2\<rparr>, \<lparr>word = ''BIG'', index = 3\<rparr>]"
    using returned_ProcessWordsFaster [OF S, of tbl g] by (simp only: w)
next
  assume S: "loadStrings m rawWords = Some [''a'']"
  have w: "wanted tbl [''a''] = [\<lparr>word = ''A'', index = 0\<rparr>]"
    by (simp only: wanted_one upper_a)
  show "returned (ProcessWords tbl g rawWords m) = Some [\<lparr>word = ''A'', index = 0\<rparr>]"
    using returned_ProcessWords [OF S, of tbl g] by (simp only: w)
  show "returned (ProcessWordsFaster tbl g rawWords m) = Some [\<lparr>word = ''A'', index = 0\<rparr>]"
    using returned_ProcessWordsFaster [OF S, of tbl g] by (simp only: w)
qed

lemma single_loads: "loadStrings singleMemory singleSlice = Some [''a'']"
  by (simp add: loadStrings_def singleMemory_def singleSlice_def)

lemma example_loads_literal:
  "loadStrings exampleMemory exampleSlice = Some [''the'', ''Whale'', ''IS'', ''big'']"
  using example_loads by (simp add: exampleWords_def)

theorem concrete_scenarios_witness:
  "loadStrings exampleMemory exampleSlice = Some [''the'', ''Whale'', ''IS'', ''big'']
   \<and> returned (ProcessWords latin1Upper doubling exampleSlice exampleMemory)
        = Some [\<lparr>word = ''THE'', index = 0\<rparr>, \<lparr>word = ''WHALE'', index = 1\<rparr>,
                \<lparr>word = ''IS'', index = 2\<rparr>, \<lparr>word = ''BIG'', index = 3\<rparr>]
   \<and> returned (ProcessWordsFaster latin1Upper doubling exampleSlice exampleMemory)
        = Some [\<lparr>word = ''THE'', index = 0\<rparr>, \<lparr>word = ''WHALE'', index = 1\<rparr>,
                \<lparr>word = ''IS'', index = 2\<rparr>, \<lparr>word = ''BIG'', index = 3\<rparr>]
   \<and> loadStrings singleMemory singleSlice = Some [''a'']
   \<and> returned (ProcessWords latin1Upper doubling singleSlice singleMemory)
        = Some [\<lparr>word = ''A'', index = 0\<rparr>]
   \<and> returned (ProcessWordsFaster latin1Upper doubling singleSlice singleMemory)
        = Some [\<lparr>word = ''A'', index = 0\<rparr>]"
  using concrete_scenarios [of exampleMemory exampleSlice latin1Upper doubling]
    concrete_scenarios [of singleMemory singleSlice latin1Upper doubling]
    example_loads_literal single_loads
  by simp

text \<open>
  C10. Element \<open>i\<close> of the result depends only on element \<open>i\<close> of the input and on
  \<open>i\<close>: two inputs that agree at \<open>i\<close> give results that agree at \<open>i\<close>, for either function;
  an empty string at \<open>i\<close> gives the record \<open>{"", i}\<close>.
\<close>

theorem element_depends_on_own_input:
  assumes "loadStrings m1 raw1 = Some S" and "loadStrings m2 raw2 = Some T"
    and "i < length S" and "i < length T" and "S ! i = T ! i"
  shows "\<exists>ws vs.
      returned (ProcessWords tbl g raw1 m1) = Some ws
      \<and> returned (ProcessWords tbl g raw2 m2) = Some vs
      \<and> returned (ProcessWordsFaster tbl g raw1 m1) = Some ws
      \<and> returned (ProcessWordsFaster tbl g raw2 m2) = Some vs
      \<and> ws ! i = vs ! i
      \<and> (S ! i = [] \<longrightarrow> ws ! i = \<lparr>word = [], index = int i\<rparr>)"
  using returned_ProcessWords [OF assms(1), of tbl g] returned_ProcessWords [OF assms(2), of tbl g]
    returned_ProcessWordsFaster [OF assms(1), of tbl g]
    returned_ProcessWordsFaster [OF assms(2), of tbl g] assms(3-5)
  by (simp add: nth_wanted upper_empty)

lemma other_loads: "loadStrings otherMemory otherSlice = Some [''x'', [], ''IS'']"
  by (simp add: loadStrings_def otherMemory_def otherSlice_def)

lemma emptyAtOne_loads: "loadStrings otherMemory emptyAtOne = Some [''x'', []]"
  by (simp add: loadStrings_def otherMemory_def emptyAtOne_def)

theorem element_depends_on_own_input_witness:
  "loadStrings exampleMemory exampleSlice = Some exampleWords
   \<and> loadStrings otherMemory otherSlice = Some [''x'', [], ''IS'']
   \<and> 2 < length exampleWords \<and> (2::nat) < length [''x'', [], ''IS'']
   \<and> exampleWords ! 2 = [''x'', [], ''IS''] ! 2
   \<and> (\<exists>ws vs.
      returned (ProcessWords (\<lambda>r. r) doubling exampleSlice exampleMemory) = Some ws
      \<and> returned (ProcessWords (\<lambda>r. r) doubling otherSlice otherMemory) = Some vs
      \<and> returned (ProcessWordsFaster (\<lambda>r. r) doubling exampleSlice exampleMemory) = Some ws
      \<and> returned (ProcessWordsFaster (\<lambda>r. r) doubling otherSlice otherMemory) = Some vs
      \<and> ws ! 2 = vs ! 2)
   \<and> loadStrings otherMemory emptyAtOne = Some [''x'', []]
   \<and> (\<exists>ws. returned (ProcessWords (\<lambda>r. r) doubling emptyAtOne otherMemory) = Some ws
        \<and> ws ! 1 = \<lparr>word = [], index = 1\<rparr>)"
proof -
  have a: "2 < length exampleWords" "(2::nat) < length [''x'', [], ''IS'']"
    "exampleWords ! 2 = [''x'', [], ''IS''] ! 2"
    by (simp_all add: exampleWords_def)
  have b: "(1::nat) < length [''x'', []]" "[''x'', []] ! 1 = [''x'', []] ! 1"
    by simp_all
  from element_depends_on_own_input [OF example_loads other_loads a, of "\<lambda>r. r" doubling]
  have "\<exists>ws vs.
      returned (ProcessWords (\<lambda>r. r) doubling exampleSlice exampleMemory) = Some ws
      \<and> returned (ProcessWords (\<lambda>r. r) doubling otherSlice otherMemory) = Some vs
      \<and> returned (ProcessWordsFaster (\<lambda>r. r) doubling exampleSlice exampleMemory) = Some ws
      \<and> returned (ProcessWordsFaster (\<lambda>r. r) doubling otherSlice otherMemory) = Some vs
      \<and> ws ! 2 = vs ! 2"
    by blast
  moreover
  from element_depends_on_own_input [OF emptyAtOne_loads emptyAtOne_loads b(1) b(1) b(2), of "\<lambda>r. r" doubling]
  have "\<exists>ws. returned (ProcessWords (\<lambda>r. r) doubling emptyAtOne otherMemory) = Some ws
        \<and> ws ! 1 = \<lparr>word = [], index = 1\<rparr>"
    by auto
  ultimately show ?thesis
    using example_loads other_loads emptyAtOne_loads a by blast
qed

end
